theory Spec2Isabelle
  imports
    Main
    "HOL-Library.AList"
    "HOL-Library.Char_ord"
    "HOL-Library.List_Lexorder"
    "HOL-Library.Product_Lexorder"
begin

section \<open>Flight planner: data model\<close>

text \<open>
  The module \<^verbatim>\<open>flight_planner.py\<close>.  Python's unbounded integers are \<^typ>\<open>int\<close>;
  a \<^verbatim>\<open>str\<close> is a \<^typ>\<open>string\<close> holding its UTF-8 bytes, so that the lexicographic
  order on byte lists (\<^verbatim>\<open>List_Lexorder\<close> over \<^verbatim>\<open>Char_ord\<close>) is Python's order on
  strings by code point.
\<close>

definition MIN_LAYOVER_MINUTES :: int where
  "MIN_LAYOVER_MINUTES = 60"

datatype Cabin = Economy | Business | First

text \<open>
  The class \<^verbatim>\<open>Flight\<close>.  Its three text fields are annotated \<^verbatim>\<open>str\<close>, which Python does
  not enforce: the CSV loader stores \<^verbatim>\<open>None\<close> there for a short row.  The record
  leaves the type of the text fields open; \<open>Flight\<close> is the class as annotated.
\<close>

record 's flight_fields =
  origin :: 's
  dest :: 's
  flight_number :: 's
  depart :: int
  arrive :: int
  economy :: int
  business :: int
  first :: int

type_synonym Flight = "string flight_fields"

definition price_for :: "'s flight_fields \<Rightarrow> Cabin \<Rightarrow> int" where
  \<comment> \<open>the dictionary lookup cannot miss: \<^verbatim>\<open>Cabin\<close> has the three keys only\<close>
  "price_for f cabin =
     (case cabin of Economy \<Rightarrow> economy f | Business \<Rightarrow> business f | First \<Rightarrow> first f)"

record Itinerary =
  flights :: "Flight list"

definition is_empty :: "Itinerary \<Rightarrow> bool" where
  "is_empty it = (flights it = [])"

definition itinerary_origin :: "Itinerary \<Rightarrow> string option" where
  "itinerary_origin it = (if flights it \<noteq> [] then Some (origin (hd (flights it))) else None)"

definition itinerary_dest :: "Itinerary \<Rightarrow> string option" where
  "itinerary_dest it = (if flights it \<noteq> [] then Some (dest (last (flights it))) else None)"

definition depart_time :: "Itinerary \<Rightarrow> int option" where
  "depart_time it = (if flights it \<noteq> [] then Some (depart (hd (flights it))) else None)"

definition arrive_time :: "Itinerary \<Rightarrow> int option" where
  "arrive_time it = (if flights it \<noteq> [] then Some (arrive (last (flights it))) else None)"

definition total_price :: "Itinerary \<Rightarrow> Cabin \<Rightarrow> int" where
  "total_price it cabin = sum_list (map (\<lambda>f. price_for f cabin) (flights it))"

definition num_stops :: "Itinerary \<Rightarrow> int" where
  "num_stops it = max 0 (int (length (flights it)) - 1)"

definition flight ::
  "string \<Rightarrow> string \<Rightarrow> string \<Rightarrow> int \<Rightarrow> int \<Rightarrow> int \<Rightarrow> int \<Rightarrow> int \<Rightarrow> Flight" where
  \<comment> \<open>the constructor \<^verbatim>\<open>Flight(o, d, num, dep, arr, e, b, f)\<close>\<close>
  "flight orig d num dep arr e b f =
     \<lparr>origin = orig, dest = d, flight_number = num, depart = dep, arrive = arr,
      economy = e, business = b, first = f\<rparr>"

text \<open>The exceptions that the module can raise.\<close>

datatype error = KeyError | ValueError | TypeError

section \<open>Loading flights\<close>

subsection \<open>The string operations of Python that the loaders call\<close>

text \<open>
  On ASCII text.  \<^verbatim>\<open>str.strip()\<close>, \<^verbatim>\<open>str.split()\<close> and \<^verbatim>\<open>int()\<close> treat the characters
  9 to 13, 28 to 31 and 32 as whitespace.  Beyond ASCII, Python knows further
  whitespace and further decimal digits, and \<^verbatim>\<open>int()\<close> refuses more than 4300 digits
  unless configured otherwise; these are not modelled.
\<close>

definition is_space :: "char \<Rightarrow> bool" where
  "is_space c = (let n = (of_char c :: nat) in (9 \<le> n \<and> n \<le> 13) \<or> (28 \<le> n \<and> n \<le> 32))"

definition py_strip :: "string \<Rightarrow> string" where
  "py_strip s = rev (dropWhile is_space (rev (dropWhile is_space s)))"

fun split_ws :: "string \<Rightarrow> string \<Rightarrow> string list" where
  \<comment> \<open>\<open>split_ws cur s\<close>: \<open>cur\<close> is the word being read\<close>
  "split_ws cur [] = (if cur = [] then [] else [cur])"
| "split_ws cur (c # cs) =
     (if is_space c then (if cur = [] then split_ws [] cs else cur # split_ws [] cs)
      else split_ws (cur @ [c]) cs)"

definition py_split :: "string \<Rightarrow> string list" where
  \<comment> \<open>\<^verbatim>\<open>s.split()\<close>: the words between runs of whitespace\<close>
  "py_split s = split_ws [] s"

fun split_at :: "char \<Rightarrow> string \<Rightarrow> string \<Rightarrow> string list" where
  "split_at sep cur [] = [cur]"
| "split_at sep cur (c # cs) =
     (if c = sep then cur # split_at sep [] cs else split_at sep (cur @ [c]) cs)"

definition py_split_on :: "char \<Rightarrow> string \<Rightarrow> string list" where
  \<comment> \<open>\<^verbatim>\<open>s.split(sep)\<close> for a separator of one character\<close>
  "py_split_on sep s = split_at sep [] s"

definition is_digit :: "char \<Rightarrow> bool" where
  "is_digit c = (let n = (of_char c :: nat) in 48 \<le> n \<and> n \<le> 57)"

definition digit_value :: "char \<Rightarrow> int" where
  "digit_value c = int (of_char c) - 48"

fun digits_from :: "int \<Rightarrow> string \<Rightarrow> int option" where
  \<comment> \<open>after a digit: more digits, each may be preceded by one underscore\<close>
  "digits_from acc [] = Some acc"
| "digits_from acc (c # cs) =
     (if is_digit c then digits_from (10 * acc + digit_value c) cs
      else if c = CHR ''_'' then
        (case cs of
           [] \<Rightarrow> None
         | d # ds \<Rightarrow> if is_digit d then digits_from (10 * acc + digit_value d) ds else None)
      else None)"

definition py_digits :: "string \<Rightarrow> int option" where
  "py_digits s =
     (case s of [] \<Rightarrow> None | c # cs \<Rightarrow> if is_digit c then digits_from (digit_value c) cs else None)"

definition py_int :: "string \<Rightarrow> int option" where
  \<comment> \<open>\<^verbatim>\<open>int(s)\<close>; \<open>None\<close> is \<^verbatim>\<open>ValueError\<close>\<close>
  "py_int s =
     (case py_strip s of
        [] \<Rightarrow> None
      | c # cs \<Rightarrow>
          if c = CHR ''-'' then map_option uminus (py_digits cs)
          else if c = CHR ''+'' then py_digits cs
          else py_digits (c # cs))"

subsection \<open>Time helpers\<close>

definition parse_time :: "string \<Rightarrow> error + int" where
  "parse_time hhmm =
     (if CHR '':'' \<notin> set hhmm then Inl ValueError
      else
        (case py_split_on CHR '':'' hhmm of
           [h, m] \<Rightarrow>
             (case py_int h of
                None \<Rightarrow> Inl ValueError
              | Some h' \<Rightarrow>
                  (case py_int m of
                     None \<Rightarrow> Inl ValueError
                   | Some m' \<Rightarrow>
                       if \<not> (0 \<le> h' \<and> h' < 24 \<and> 0 \<le> m' \<and> m' < 60) then Inl ValueError
                       else Inr (h' * 60 + m')))
         | _ \<Rightarrow> Inl ValueError))"

subsection \<open>Text files\<close>

text \<open>
  \<open>parse_flight_line_txt\<close> returns \<open>Inr None\<close> for a blank line or a comment.  The
  unpacking \<^verbatim>\<open>h, m = hhmm.split(":")\<close> and the conversions \<^verbatim>\<open>int(e)\<close> raise
  \<^verbatim>\<open>ValueError\<close> like the explicit checks.
\<close>

definition parse_flight_line_txt :: "string \<Rightarrow> error + Flight option" where
  "parse_flight_line_txt line0 =
     (let line = py_strip line0 in
      if line = [] \<or> take 1 line = ''#'' then Inr None
      else
        (case py_split line of
           [orig, d, num, dep, arr, e, b, f] \<Rightarrow>
             (case parse_time dep of
                Inl err \<Rightarrow> Inl err
              | Inr dep_m \<Rightarrow>
                  (case parse_time arr of
                     Inl err \<Rightarrow> Inl err
                   | Inr arr_m \<Rightarrow>
                       if arr_m \<le> dep_m then Inl ValueError
                       else
                         (case py_int e of
                            None \<Rightarrow> Inl ValueError
                          | Some e' \<Rightarrow>
                              (case py_int b of
                                 None \<Rightarrow> Inl ValueError
                               | Some b' \<Rightarrow>
                                   (case py_int f of
                                      None \<Rightarrow> Inl ValueError
                                    | Some f' \<Rightarrow>
                                        Inr (Some \<lparr>origin = orig, dest = d,
                                          flight_number = num, depart = dep_m,
                                          arrive = arr_m, economy = e', business = b',
                                          first = f'\<rparr>))))))
         | _ \<Rightarrow> Inl ValueError))"

fun load_txt_lines :: "string list \<Rightarrow> Flight list \<Rightarrow> error + Flight list" where
  \<comment> \<open>the \<^verbatim>\<open>for\<close> loop over the lines, with the list \<^verbatim>\<open>flights\<close> built so far\<close>
  "load_txt_lines [] fls = Inr fls"
| "load_txt_lines (line # rest) fls =
     (case parse_flight_line_txt line of
        Inl err \<Rightarrow> Inl ValueError
      | Inr None \<Rightarrow> load_txt_lines rest fls
      | Inr (Some fl) \<Rightarrow> load_txt_lines rest (fls @ [fl]))"

definition load_flights_txt :: "string list \<Rightarrow> error + Flight list" where
  \<comment> \<open>the argument is the list of the lines of the file\<close>
  "load_flights_txt lines = load_txt_lines lines []"

subsection \<open>CSV files\<close>

text \<open>
  What \<^verbatim>\<open>csv.DictReader\<close> makes of the file is given: the field names (\<open>None\<close> for an
  empty file) and the rows, each a value per field name, \<open>None\<close> where the row is
  short.  \<^verbatim>\<open>parse_time(None)\<close> and \<^verbatim>\<open>int(None)\<close> raise \<^verbatim>\<open>TypeError\<close>.
\<close>

type_synonym csv_row = "string \<Rightarrow> string option"

definition required :: "string list" where
  "required = [''origin'', ''dest'', ''flight_number'', ''depart'', ''arrive'',
               ''economy'', ''business'', ''first'']"

definition parse_time_cell :: "string option \<Rightarrow> error + int" where
  "parse_time_cell c = (case c of None \<Rightarrow> Inl TypeError | Some s \<Rightarrow> parse_time s)"

definition int_cell :: "string option \<Rightarrow> error + int" where
  "int_cell c =
     (case c of
        None \<Rightarrow> Inl TypeError
      | Some s \<Rightarrow> (case py_int s of None \<Rightarrow> Inl ValueError | Some n \<Rightarrow> Inr n))"

definition csv_row_flight :: "csv_row \<Rightarrow> error + string option flight_fields" where
  \<comment> \<open>the body of the \<^verbatim>\<open>for row in reader\<close> loop\<close>
  "csv_row_flight row =
     (case parse_time_cell (row ''depart'') of
        Inl err \<Rightarrow> Inl err
      | Inr dep \<Rightarrow>
          (case parse_time_cell (row ''arrive'') of
             Inl err \<Rightarrow> Inl err
           | Inr arr \<Rightarrow>
               if arr \<le> dep then Inl ValueError
               else
                 (case int_cell (row ''economy'') of
                    Inl err \<Rightarrow> Inl err
                  | Inr e \<Rightarrow>
                      (case int_cell (row ''business'') of
                         Inl err \<Rightarrow> Inl err
                       | Inr b \<Rightarrow>
                           (case int_cell (row ''first'') of
                              Inl err \<Rightarrow> Inl err
                            | Inr f \<Rightarrow>
                                Inr \<lparr>origin = row ''origin'', dest = row ''dest'',
                                  flight_number = row ''flight_number'', depart = dep,
                                  arrive = arr, economy = e, business = b,
                                  first = f\<rparr>)))))"

fun load_csv_rows ::
  "csv_row list \<Rightarrow> string option flight_fields list \<Rightarrow> error + string option flight_fields list"
  where
  "load_csv_rows [] fls = Inr fls"
| "load_csv_rows (row # rest) fls =
     (case csv_row_flight row of
        Inl err \<Rightarrow> Inl err
      | Inr fl \<Rightarrow> load_csv_rows rest (fls @ [fl]))"

definition load_flights_csv ::
  "string list option \<Rightarrow> csv_row list \<Rightarrow> error + string option flight_fields list" where
  "load_flights_csv fieldnames rows =
     (if \<not> set required \<subseteq> set (case fieldnames of None \<Rightarrow> [] | Some names \<Rightarrow> names)
      then Inl ValueError
      else load_csv_rows rows [])"

subsection \<open>Choosing the loader\<close>

text \<open>
  \<^verbatim>\<open>Path(path).suffix.lower() == ".csv"\<close>, for a POSIX path: the name is the last
  component that is neither empty nor a single dot, and its suffix starts at its last
  dot, unless that dot is the first or the last character of the name.
\<close>

definition path_name :: "string \<Rightarrow> string" where
  "path_name path =
     (case filter (\<lambda>c. c \<noteq> [] \<and> c \<noteq> ''.'') (py_split_on CHR ''/'' path) of
        [] \<Rightarrow> []
      | c # cs \<Rightarrow> last (c # cs))"

definition path_suffix :: "string \<Rightarrow> string" where
  "path_suffix path =
     (let name = path_name path in
      if CHR ''.'' \<notin> set name then []
      else
        let i = length name - 1 - length (takeWhile (\<lambda>c. c \<noteq> CHR ''.'') (rev name)) in
        if 0 < i \<and> i < length name - 1 then drop i name else [])"

definition to_lower :: "char \<Rightarrow> char" where
  "to_lower c =
     (let n = (of_char c :: nat) in if 65 \<le> n \<and> n \<le> 90 then char_of (n + 32) else c)"

text \<open>
  The file as the loaders read it: its lines, and what \<^verbatim>\<open>csv.DictReader\<close> makes of
  it.  A flight of the text loader has strings in its text fields.
\<close>

record flight_file =
  file_lines :: "string list"
  csv_fieldnames :: "string list option"
  csv_rows :: "csv_row list"

definition loaded :: "Flight \<Rightarrow> string option flight_fields" where
  "loaded f =
     \<lparr>origin = Some (origin f), dest = Some (dest f),
      flight_number = Some (flight_number f), depart = depart f, arrive = arrive f,
      economy = economy f, business = business f, first = first f\<rparr>"

definition load_flights :: "string \<Rightarrow> flight_file \<Rightarrow> error + string option flight_fields list" where
  "load_flights path file =
     (if map to_lower (path_suffix path) = ''.csv''
      then load_flights_csv (csv_fieldnames file) (csv_rows file)
      else
        (case load_flights_txt (file_lines file) of
           Inl err \<Rightarrow> Inl err
         | Inr fls \<Rightarrow> Inr (map loaded fls)))"

section \<open>The route graph\<close>

text \<open>
  \<^verbatim>\<open>Graph = Dict[str, List[Flight]]\<close>: a dictionary in insertion order, modelled as an
  association list; a key is looked up with \<^const>\<open>map_of\<close>.  \<^verbatim>\<open>graph.get(a, [])\<close> is
  \<open>graph_get\<close>.
\<close>

type_synonym Graph = "(string \<times> Flight list) list"

definition graph_get :: "Graph \<Rightarrow> string \<Rightarrow> Flight list" where
  "graph_get graph a = (case map_of graph a of None \<Rightarrow> [] | Some fs \<Rightarrow> fs)"

definition graph_add :: "Flight \<Rightarrow> Graph \<Rightarrow> Graph" where
  \<comment> \<open>\<^verbatim>\<open>graph.setdefault(f.origin, []).append(f)\<close>\<close>
  "graph_add f graph = AList.update (origin f) (graph_get graph (origin f) @ [f]) graph"

definition build_graph :: "Flight list \<Rightarrow> Graph" where
  "build_graph fs = fold graph_add fs []"

section \<open>The priority queue\<close>

text \<open>
  \<^verbatim>\<open>heapq\<close> keeps a binary heap in a Python list.  The entries are tuples of integers
  and strings, whose order is total, and two entries that compare equal are the same
  value; so what \<^verbatim>\<open>heappop\<close> returns and the multiset it leaves depend only on the
  multiset of entries.  The queue is modelled as the list of its entries:
  \<open>heappush\<close> adds one, \<open>heappop\<close> removes one least entry.
\<close>

definition heappush :: "'a list \<Rightarrow> 'a \<Rightarrow> 'a list" where
  "heappush q x = x # q"

definition heappop :: "('a::linorder) list \<Rightarrow> 'a \<times> 'a list" where
  "heappop q = (let m = Min (set q) in (m, remove1 m q))"

section \<open>Earliest-arrival search\<close>

record estate =
  pq :: "(int \<times> string) list"
  best_time :: "string \<rightharpoonup> int"
  prev :: "string \<rightharpoonup> Flight"

definition relax_earliest :: "string \<Rightarrow> int \<Rightarrow> int \<Rightarrow> string \<Rightarrow> Flight \<Rightarrow> estate \<Rightarrow> estate" where
  \<comment> \<open>the body of the \<^verbatim>\<open>for fl in graph.get(airport, [])\<close> loop\<close>
  "relax_earliest start earliest_departure time airport fl st =
     (let min_dep = (if airport = start then earliest_departure
                     else time + MIN_LAYOVER_MINUTES) in
      if depart fl < min_dep then st
      else if (case best_time st (dest fl) of None \<Rightarrow> True | Some b \<Rightarrow> arrive fl < b)
      then st\<lparr>best_time := (best_time st)(dest fl \<mapsto> arrive fl),
               prev := (prev st)(dest fl \<mapsto> fl),
               pq := heappush (pq st) (arrive fl, dest fl)\<rparr>
      else st)"

partial_function (option) earliest_loop ::
  "Graph \<Rightarrow> string \<Rightarrow> string \<Rightarrow> int \<Rightarrow> estate \<Rightarrow> estate option" where
  "earliest_loop graph start dst earliest_departure st =
     (if pq st = [] then Some st
      else
        (case heappop (pq st) of
           ((time, airport), q) \<Rightarrow>
             if airport = dst then Some (st\<lparr>pq := q\<rparr>)
             else earliest_loop graph start dst earliest_departure
                    (fold (relax_earliest start earliest_departure time airport)
                       (graph_get graph airport) (st\<lparr>pq := q\<rparr>))))"

declare earliest_loop.simps [code]

partial_function (option) earliest_walk ::
  "(string \<rightharpoonup> Flight) \<Rightarrow> string \<Rightarrow> string \<Rightarrow> Flight list \<Rightarrow> Flight list option option" where
  \<comment> \<open>\<^verbatim>\<open>while cur != start\<close>: the inner \<open>None\<close> is \<^verbatim>\<open>return None\<close>\<close>
  "earliest_walk prv start cur fls =
     (if cur = start then Some (Some fls)
      else
        (case prv cur of
           None \<Rightarrow> Some None
         | Some fl \<Rightarrow> earliest_walk prv start (origin fl) (fls @ [fl])))"

declare earliest_walk.simps [code]

definition earliest_init :: "string \<Rightarrow> int \<Rightarrow> estate" where
  "earliest_init start earliest_departure =
     \<lparr>pq = [(earliest_departure, start)],
      best_time = [start \<mapsto> earliest_departure],
      prev = Map.empty\<rparr>"

text \<open>
  The outer \<open>option\<close> of the result is \<open>None\<close> when the call does not return; the inner
  one is Python's \<^verbatim>\<open>Optional[Itinerary]\<close>.
\<close>

definition find_earliest_itinerary ::
  "Graph \<Rightarrow> string \<Rightarrow> string \<Rightarrow> int \<Rightarrow> Itinerary option option" where
  "find_earliest_itinerary graph start dst earliest_departure =
     (case earliest_loop graph start dst earliest_departure
             (earliest_init start earliest_departure) of
        None \<Rightarrow> None
      | Some st \<Rightarrow>
          if prev st dst = None \<and> start \<noteq> dst then Some None
          else
            (case earliest_walk (prev st) start dst [] of
               None \<Rightarrow> None
             | Some None \<Rightarrow> Some None
             | Some (Some fls) \<Rightarrow> Some (Some \<lparr>flights = rev fls\<rparr>)))"

section \<open>Cheapest-fare search\<close>

record cstate =
  pq_c :: "(int \<times> int \<times> string) list"
  best_cost :: "string \<rightharpoonup> int"
  best_time_c :: "string \<rightharpoonup> int"
  prev_c :: "string \<rightharpoonup> Flight"

definition relax_cheapest ::
  "string \<Rightarrow> int \<Rightarrow> Cabin \<Rightarrow> int \<Rightarrow> int \<Rightarrow> string \<Rightarrow> Flight \<Rightarrow> cstate \<Rightarrow> cstate" where
  \<comment> \<open>the body of the \<^verbatim>\<open>for fl in graph.get(airport, [])\<close> loop\<close>
  "relax_cheapest start earliest_departure cabin cost time airport fl st =
     (let min_dep = (if airport = start then earliest_departure
                     else time + MIN_LAYOVER_MINUTES) in
      if depart fl < min_dep then st
      else
        let new_cost = cost + price_for fl cabin in
        if (case best_cost st (dest fl) of None \<Rightarrow> True | Some b \<Rightarrow> new_cost < b)
        then st\<lparr>best_cost := (best_cost st)(dest fl \<mapsto> new_cost),
                 best_time_c := (best_time_c st)(dest fl \<mapsto> arrive fl),
                 prev_c := (prev_c st)(dest fl \<mapsto> fl),
                 pq_c := heappush (pq_c st) (new_cost, arrive fl, dest fl)\<rparr>
        else st)"

partial_function (option) cheapest_loop ::
  "Graph \<Rightarrow> string \<Rightarrow> string \<Rightarrow> int \<Rightarrow> Cabin \<Rightarrow> cstate \<Rightarrow> cstate option" where
  "cheapest_loop graph start dst earliest_departure cabin st =
     (if pq_c st = [] then Some st
      else
        (case heappop (pq_c st) of
           ((cost, time, airport), q) \<Rightarrow>
             if airport = dst then Some (st\<lparr>pq_c := q\<rparr>)
             else cheapest_loop graph start dst earliest_departure cabin
                    (fold (relax_cheapest start earliest_departure cabin cost time airport)
                       (graph_get graph airport) (st\<lparr>pq_c := q\<rparr>))))"

declare cheapest_loop.simps [code]

partial_function (option) cheapest_walk ::
  "(string \<rightharpoonup> Flight) \<Rightarrow> string \<Rightarrow> string \<Rightarrow> Flight list \<Rightarrow> (error + Flight list) option" where
  \<comment> \<open>\<^verbatim>\<open>while cur != start\<close> with the unguarded \<^verbatim>\<open>prev[cur]\<close>\<close>
  "cheapest_walk prv start cur fls =
     (if cur = start then Some (Inr fls)
      else
        (case prv cur of
           None \<Rightarrow> Some (Inl KeyError)
         | Some fl \<Rightarrow> cheapest_walk prv start (origin fl) (fls @ [fl])))"

declare cheapest_walk.simps [code]

definition cheapest_init :: "string \<Rightarrow> int \<Rightarrow> cstate" where
  "cheapest_init start earliest_departure =
     \<lparr>pq_c = [(0, earliest_departure, start)],
      best_cost = [start \<mapsto> 0],
      best_time_c = [start \<mapsto> earliest_departure],
      prev_c = Map.empty\<rparr>"

text \<open>
  The result is \<open>None\<close> when the call does not return, \<open>Some (Inl e)\<close> when it raises
  \<open>e\<close>, and \<open>Some (Inr r)\<close> when it returns \<open>r\<close>.
\<close>

definition find_cheapest_itinerary ::
  "Graph \<Rightarrow> string \<Rightarrow> string \<Rightarrow> int \<Rightarrow> Cabin \<Rightarrow> (error + Itinerary option) option" where
  "find_cheapest_itinerary graph start dst earliest_departure cabin =
     (case cheapest_loop graph start dst earliest_departure cabin
             (cheapest_init start earliest_departure) of
        None \<Rightarrow> None
      | Some st \<Rightarrow>
          if prev_c st dst = None then Some (Inr None)
          else
            (case cheapest_walk (prev_c st) start dst [] of
               None \<Rightarrow> None
             | Some (Inl e) \<Rightarrow> Some (Inl e)
             | Some (Inr fls) \<Rightarrow> Some (Inr (Some \<lparr>flights = rev fls\<rparr>))))"

section \<open>Notions of the specification\<close>

text \<open>
  The paths that the search competes with.  \<open>connects graph cur thr p\<close>: the flights of \<open>p\<close> are listed in the graph, the first leaves
  \<open>cur\<close> no earlier than \<open>thr\<close>, and each later one leaves the airport where the previous
  one arrived, at least \<open>MIN_LAYOVER_MINUTES\<close> after that arrival.
\<close>

fun connects :: "Graph \<Rightarrow> string \<Rightarrow> int \<Rightarrow> Flight list \<Rightarrow> bool" where
  "connects graph cur thr [] = True"
| "connects graph cur thr (f # fs) =
     (f \<in> set (graph_get graph cur) \<and> origin f = cur \<and> thr \<le> depart f \<and>
      connects graph (dest f) (arrive f + MIN_LAYOVER_MINUTES) fs)"

definition feasible_path :: "Graph \<Rightarrow> string \<Rightarrow> string \<Rightarrow> int \<Rightarrow> Flight list \<Rightarrow> bool" where
  "feasible_path graph start dst earliest_departure p =
     (p \<noteq> [] \<and> connects graph start earliest_departure p \<and> dest (last p) = dst)"

text \<open>\<open>chained\<close>: each record ends where the next one begins.\<close>

fun chained :: "Flight list \<Rightarrow> bool" where
  "chained [] = True"
| "chained [f] = True"
| "chained (f # g # fs) = (dest f = origin g \<and> chained (g # fs))"

text \<open>
  The data model of the search: every flight is listed under its own origin (as
  \<open>build_graph\<close> lists it), it arrives after it departs, and its prices are not
  negative.
\<close>

definition keyed_by_origin :: "Graph \<Rightarrow> bool" where
  "keyed_by_origin graph = (\<forall>(a, fs) \<in> set graph. \<forall>f \<in> set fs. origin f = a)"

definition arrive_after_depart :: "Graph \<Rightarrow> bool" where
  "arrive_after_depart graph = (\<forall>(a, fs) \<in> set graph. \<forall>f \<in> set fs. depart f < arrive f)"

definition nonneg_prices :: "Graph \<Rightarrow> Cabin \<Rightarrow> bool" where
  "nonneg_prices graph cabin = (\<forall>(a, fs) \<in> set graph. \<forall>f \<in> set fs. 0 \<le> price_for f cabin)"

definition valid_times :: "'s flight_fields \<Rightarrow> bool" where
  "valid_times f \<longleftrightarrow>
     0 \<le> depart f \<and> depart f < 1440 \<and> 0 \<le> arrive f \<and> arrive f < 1440 \<and> depart f < arrive f"

section \<open>Invariants and measures of the proofs\<close>

text \<open>
  \<open>back_path prv start cur p\<close>: walking the predecessor links of \<open>prv\<close> from \<open>cur\<close>
  reaches \<open>start\<close>, collecting the flights \<open>p\<close>.
\<close>

inductive back_path :: "(string \<rightharpoonup> Flight) \<Rightarrow> string \<Rightarrow> string \<Rightarrow> Flight list \<Rightarrow> bool" where
  stop: "back_path prv start start []"
| step: "cur \<noteq> start \<Longrightarrow> prv cur = Some fl \<Longrightarrow> back_path prv start (origin fl) rest
         \<Longrightarrow> back_path prv start cur (fl # rest)"

text \<open>
  \<open>links_mono prv lab\<close>: the label map \<open>lab\<close> (best time or best cost) does not increase
  along the predecessor links, from an airport to the origin of its predecessor.
\<close>

definition links_mono :: "(string \<rightharpoonup> Flight) \<Rightarrow> (string \<rightharpoonup> int) \<Rightarrow> bool" where
  "links_mono prv lab =
     (\<forall>Z g. prv Z = Some g \<longrightarrow> (\<exists>a b. lab (origin g) = Some a \<and> lab Z = Some b \<and> a \<le> b))"

text \<open>
  Every queue entry costs at least the recorded best cost of its airport, the best
  cost does not increase along the predecessor links, and from every airport with a
  best cost the links lead back to the start.
\<close>

definition cheapest_inv :: "string \<Rightarrow> cstate \<Rightarrow> bool" where
  "cheapest_inv start st \<longleftrightarrow>
     (\<forall>(c, t, Y) \<in> set (pq_c st). \<exists>b. best_cost st Y = Some b \<and> b \<le> c) \<and>
     links_mono (prev_c st) (best_cost st) \<and>
     (\<forall>Y b. best_cost st Y = Some b \<longrightarrow> (\<exists>p. back_path (prev_c st) start Y p))"

definition all_flights :: "Graph \<Rightarrow> Flight list" where
  \<comment> \<open>the flights of the graph, a finite list\<close>
  "all_flights graph = concat (map snd graph)"

text \<open>
  A flight can still improve a label when its destination has none or a later one.
  Each push removes a flight from those that can, so the loop, which pops one entry
  per round, cannot go on for ever.
\<close>

definition improvable :: "(string \<rightharpoonup> int) \<Rightarrow> Flight \<Rightarrow> bool" where
  "improvable best f = (case best (dest f) of None \<Rightarrow> True | Some b \<Rightarrow> arrive f < b)"

definition earliest_measure :: "Graph \<Rightarrow> estate \<Rightarrow> nat" where
  "earliest_measure graph st =
     2 * length (filter (improvable (best_time st)) (all_flights graph)) + length (pq st)"

text \<open>
  With non-negative prices every cost in the queue is non-negative.  A push either
  gives a first best cost to an airport, or lowers a best cost that is a natural
  number; so the pair (airports without a best cost, sum of the best costs) decreases
  lexicographically with each push, and a round without a push shortens the queue.
\<close>

definition airports :: "Graph \<Rightarrow> string \<Rightarrow> string list" where
  "airports graph start = start # map dest (all_flights graph)"

definition unlabelled :: "Graph \<Rightarrow> string \<Rightarrow> cstate \<Rightarrow> nat" where
  "unlabelled graph start st =
     length (filter (\<lambda>n. best_cost st n = None) (airports graph start))"

definition cost_sum :: "Graph \<Rightarrow> string \<Rightarrow> cstate \<Rightarrow> nat" where
  "cost_sum graph start st =
     sum_list (map (\<lambda>n. case best_cost st n of None \<Rightarrow> 0 | Some c \<Rightarrow> nat c)
       (airports graph start))"

definition cheapest_order :: "Graph \<Rightarrow> string \<Rightarrow> (cstate \<times> cstate) set" where
  "cheapest_order graph start =
     inv_image (less_than <*lex*> less_than <*lex*> less_than)
       (\<lambda>st. (unlabelled graph start st, cost_sum graph start st, length (pq_c st)))"

definition no_worse :: "Graph \<Rightarrow> string \<Rightarrow> cstate \<Rightarrow> cstate \<Rightarrow> bool" where
  \<comment> \<open>\<open>st'\<close> is \<open>st\<close> after some relaxations\<close>
  "no_worse graph start st' st \<longleftrightarrow>
     unlabelled graph start st' < unlabelled graph start st
     \<or> unlabelled graph start st' = unlabelled graph start st
        \<and> cost_sum graph start st' < cost_sum graph start st
     \<or> unlabelled graph start st' = unlabelled graph start st
        \<and> cost_sum graph start st' = cost_sum graph start st
        \<and> length (pq_c st') = length (pq_c st)"

text \<open>
  Every queue entry is no earlier than the recorded best time of its airport, the
  best time of the start is at most the earliest departure, the best time does not
  increase along the predecessor links, and from every airport with a best time the
  links lead back to the start.
\<close>

definition earliest_inv :: "string \<Rightarrow> int \<Rightarrow> estate \<Rightarrow> bool" where
  "earliest_inv start ed st \<longleftrightarrow>
     (\<forall>(t, Y) \<in> set (pq st). \<exists>b. best_time st Y = Some b \<and> b \<le> t) \<and>
     (\<exists>b. best_time st start = Some b \<and> b \<le> ed) \<and>
     links_mono (prev st) (best_time st) \<and>
     (\<forall>Y b. best_time st Y = Some b \<longrightarrow> (\<exists>p. back_path (prev st) start Y p))"

text \<open>
  \<^verbatim>\<open>int(e)\<close> accepts a negative price, so the loaders let this graph through: A to B
  and B to A, each at price \<open>-1\<close>.  Every round of the cheapest-fare loop lowers a best
  cost and pushes one entry; the loop never ends, whatever the destination.
\<close>

definition round_trip :: Graph where
  "round_trip = build_graph [flight ''A'' ''B'' ''N1'' 100 200 (-1) (-1) (-1),
                             flight ''B'' ''A'' ''N2'' 300 400 (-1) (-1) (-1)]"

definition circling :: "cstate \<Rightarrow> bool" where
  "circling st \<longleftrightarrow>
     (\<exists>c t. pq_c st = [(c, t, ''A'')] \<and> best_cost st ''A'' = Some c \<and> best_cost st ''B'' = None)
     \<or> (\<exists>c. pq_c st = [(c, 400, ''A'')] \<and> best_cost st ''A'' = Some c
           \<and> best_cost st ''B'' = Some (c + 1))
     \<or> (\<exists>c. pq_c st = [(c, 200, ''B'')] \<and> best_cost st ''B'' = Some c
           \<and> best_cost st ''A'' = Some (c + 1))"

text \<open>
  \<open>reached graph start ed t Y\<close>: a queue entry for \<open>Y\<close> at time \<open>t\<close> is backed by a
  feasible path that arrives at \<open>Y\<close> at \<open>t\<close>; an entry for the start needs none, since
  the flights out of the start are only held to the earliest departure.
\<close>

definition reached :: "Graph \<Rightarrow> string \<Rightarrow> int \<Rightarrow> int \<Rightarrow> string \<Rightarrow> bool" where
  "reached graph start ed t Y \<longleftrightarrow>
     Y = start \<or> (\<exists>p. feasible_path graph start Y ed p \<and> arrive (last p) = t)"

definition earliest_reach :: "Graph \<Rightarrow> string \<Rightarrow> int \<Rightarrow> estate \<Rightarrow> bool" where
  "earliest_reach graph start ed st \<longleftrightarrow>
     (\<forall>(t, Y) \<in> set (pq st). reached graph start ed t Y) \<and>
     (\<forall>Z f. prev st Z = Some f \<longrightarrow> (\<exists>p. feasible_path graph start Z ed p))"

definition cheapest_reach :: "Graph \<Rightarrow> string \<Rightarrow> int \<Rightarrow> cstate \<Rightarrow> bool" where
  "cheapest_reach graph start ed st \<longleftrightarrow>
     (\<forall>(c, t, Y) \<in> set (pq_c st). reached graph start ed t Y) \<and>
     (\<forall>Z f. prev_c st Z = Some f \<longrightarrow> (\<exists>p. feasible_path graph start Z ed p))"

text \<open>
  A flight is covered when its destination has a best time no later than its arrival.
  An airport with best time \<open>b\<close> is relaxed when every flight out of it that may be
  taken from that label is covered.
\<close>

definition covered :: "(string \<rightharpoonup> int) \<Rightarrow> Flight \<Rightarrow> bool" where
  "covered best f \<longleftrightarrow> (\<exists>c. best (dest f) = Some c \<and> c \<le> arrive f)"

definition relaxed :: "Graph \<Rightarrow> string \<Rightarrow> int \<Rightarrow> (string \<rightharpoonup> int) \<Rightarrow> string \<Rightarrow> int \<Rightarrow> bool" where
  "relaxed graph start ed best X b \<longleftrightarrow>
     (\<forall>f \<in> set (graph_get graph X).
        (if X = start then ed else b + MIN_LAYOVER_MINUTES) \<le> depart f \<longrightarrow> covered best f)"

text \<open>
  Between two relaxations of the round that popped \<open>(t, a)\<close>, with the flights \<open>seen\<close>
  already looked at: every labelled airport has its label in the queue, or is relaxed,
  or is \<open>a\<close> itself at label \<open>t\<close>, with the flights looked at so far covered.
\<close>

definition opt_mid ::
  "Graph \<Rightarrow> string \<Rightarrow> int \<Rightarrow> int \<Rightarrow> string \<Rightarrow> Flight list \<Rightarrow> estate \<Rightarrow> bool" where
  "opt_mid graph start ed t a seen st \<longleftrightarrow>
     (\<forall>(t', Y) \<in> set (pq st). \<exists>b. best_time st Y = Some b \<and> b \<le> t') \<and>
     (\<exists>b. best_time st start = Some b \<and> b \<le> ed) \<and>
     (\<forall>Z f. prev st Z = Some f \<longrightarrow> best_time st Z = Some (arrive f)) \<and>
     (\<forall>X b. best_time st X = Some b \<longrightarrow>
        (b, X) \<in> set (pq st) \<or> relaxed graph start ed (best_time st) X b
        \<or> (X = a \<and> b = t \<and>
            (\<forall>f \<in> set seen. (if a = start then ed else t + MIN_LAYOVER_MINUTES) \<le> depart f
               \<longrightarrow> covered (best_time st) f)))"

definition opt_inv :: "Graph \<Rightarrow> string \<Rightarrow> int \<Rightarrow> estate \<Rightarrow> bool" where
  "opt_inv graph start ed st \<longleftrightarrow>
     (\<forall>(t', Y) \<in> set (pq st). \<exists>b. best_time st Y = Some b \<and> b \<le> t') \<and>
     (\<exists>b. best_time st start = Some b \<and> b \<le> ed) \<and>
     (\<forall>Z f. prev st Z = Some f \<longrightarrow> best_time st Z = Some (arrive f)) \<and>
     (\<forall>X b. best_time st X = Some b \<longrightarrow>
        (b, X) \<in> set (pq st) \<or> relaxed graph start ed (best_time st) X b)"

text \<open>
  \<open>leg_ok graph start ed best Z f\<close>: the predecessor \<open>f\<close> recorded for \<open>Z\<close> is a flight of
  the graph into \<open>Z\<close> whose arrival is the best time of \<open>Z\<close>, and it leaves its origin no
  earlier than the earliest departure (at the start) or than the best time of the
  origin plus the layover (elsewhere).
\<close>

definition leg_ok ::
  "Graph \<Rightarrow> string \<Rightarrow> int \<Rightarrow> (string \<rightharpoonup> int) \<Rightarrow> string \<Rightarrow> Flight \<Rightarrow> bool" where
  "leg_ok graph start ed best Z f \<longleftrightarrow>
     dest f = Z \<and> f \<in> set (graph_get graph (origin f)) \<and> best Z = Some (arrive f) \<and>
     (if origin f = start then ed \<le> depart f
      else \<exists>b. best (origin f) = Some b \<and> b + MIN_LAYOVER_MINUTES \<le> depart f)"

definition earliest_feasible :: "Graph \<Rightarrow> string \<Rightarrow> int \<Rightarrow> estate \<Rightarrow> bool" where
  "earliest_feasible graph start ed st \<longleftrightarrow>
     (\<forall>(t, Y) \<in> set (pq st). \<exists>b. best_time st Y = Some b \<and> b \<le> t) \<and>
     (\<forall>Z f. prev st Z = Some f \<longrightarrow> leg_ok graph start ed (best_time st) Z f)"

section \<open>Properties\<close>

subsection \<open>Start equal to destination\<close>

text \<open>
  C8. For every graph and earliest departure, \<open>find_earliest_itinerary\<close> called with
  the start as destination returns an itinerary (not \<^verbatim>\<open>None\<close>) with an empty flight
  list, whose \<open>num_stops\<close> is 0 and whose \<open>total_price\<close> is 0 for every cabin.
\<close>

theorem earliest_start_is_dest:
  "find_earliest_itinerary graph start start earliest_departure = Some (Some \<lparr>flights = []\<rparr>)
   \<and> is_empty \<lparr>flights = []\<rparr>
   \<and> num_stops \<lparr>flights = []\<rparr> = 0
   \<and> total_price \<lparr>flights = []\<rparr> cabin = 0"
  by (simp add: find_earliest_itinerary_def earliest_loop.simps earliest_init_def heappop_def
      earliest_walk.simps is_empty_def num_stops_def total_price_def)

text \<open>
  C9. For every graph, earliest departure and cabin, \<open>find_cheapest_itinerary\<close> called
  with the start as destination returns \<^verbatim>\<open>None\<close>, where \<open>find_earliest_itinerary\<close>
  returns the empty itinerary on the same input.
\<close>

theorem cheapest_start_is_dest:
  "find_cheapest_itinerary graph start start earliest_departure cabin = Some (Inr None)
   \<and> find_earliest_itinerary graph start start earliest_departure
       = Some (Some \<lparr>flights = []\<rparr>)"
  by (simp add: find_cheapest_itinerary_def cheapest_loop.simps cheapest_init_def heappop_def
      find_earliest_itinerary_def earliest_loop.simps earliest_init_def earliest_walk.simps)

subsection \<open>Where the cheapest-fare search goes wrong\<close>

text \<open>
  C1 says that no feasible path from start to destination has a strictly lower sum of
  cabin prices than the itinerary that \<open>find_cheapest_itinerary\<close> returns.  The code
  departs from it.  Two flights go from A to B: a cheap one that
  arrives at 12:00 and a dearer one that arrives at 09:00; the only flight from B to C
  leaves at 10:00, and a direct flight from A to C costs 1000.  The search keeps only
  the cheapest label of B, which misses the connection, and returns the direct flight
  at 1000, although the dearer flight to B and the connection are a feasible path at
  150.
\<close>

theorem cheapest_not_cheapest:
  "find_cheapest_itinerary
     (build_graph
        [flight ''A'' ''B'' ''F1'' 480 720 10 20 30,
         flight ''A'' ''B'' ''F2'' 480 540 100 200 300,
         flight ''A'' ''C'' ''F3'' 480 600 1000 2000 3000,
         flight ''B'' ''C'' ''F4'' 600 660 50 80 120])
     ''A'' ''C'' 420 Economy
     = Some (Inr (Some \<lparr>flights = [flight ''A'' ''C'' ''F3'' 480 600 1000 2000 3000]\<rparr>))
   \<and> total_price \<lparr>flights = [flight ''A'' ''C'' ''F3'' 480 600 1000 2000 3000]\<rparr> Economy = 1000
   \<and> feasible_path
        (build_graph
           [flight ''A'' ''B'' ''F1'' 480 720 10 20 30,
            flight ''A'' ''B'' ''F2'' 480 540 100 200 300,
            flight ''A'' ''C'' ''F3'' 480 600 1000 2000 3000,
            flight ''B'' ''C'' ''F4'' 600 660 50 80 120])
        ''A'' ''C'' 420
        [flight ''A'' ''B'' ''F2'' 480 540 100 200 300,
         flight ''B'' ''C'' ''F4'' 600 660 50 80 120]
   \<and> total_price
        \<lparr>flights = [flight ''A'' ''B'' ''F2'' 480 540 100 200 300,
                    flight ''B'' ''C'' ''F4'' 600 660 50 80 120]\<rparr> Economy = 150"
  by code_simp

text \<open>
  C2 says that in every itinerary returned by either search each flight leaves at
  least 60 minutes after the previous one arrives, and the first no earlier than the
  earliest departure.  The cheapest-fare search departs from it.  B is first
  reached at 01:40 for 50, then more cheaply, for 15, at 08:20, and its predecessor
  is overwritten.  The queue entry of the first label is still popped; from it the
  flight to D that leaves B at 03:20 is taken.  The reconstructed itinerary arrives at
  B at 08:20 and leaves it at 03:20.
\<close>

theorem cheapest_breaks_layover:
  "find_cheapest_itinerary
     (build_graph
        [flight ''A'' ''B'' ''F1'' 60 100 50 50 50,
         flight ''A'' ''C'' ''F2'' 30 50 10 10 10,
         flight ''C'' ''B'' ''F3'' 110 500 5 5 5,
         flight ''B'' ''D'' ''F4'' 200 300 7 7 7])
     ''A'' ''D'' 0 Economy
     = Some (Inr (Some \<lparr>flights =
         [flight ''A'' ''C'' ''F2'' 30 50 10 10 10,
          flight ''C'' ''B'' ''F3'' 110 500 5 5 5,
          flight ''B'' ''D'' ''F4'' 200 300 7 7 7]\<rparr>))
   \<and> depart (flight ''B'' ''D'' ''F4'' 200 300 7 7 7)
       < arrive (flight ''C'' ''B'' ''F3'' 110 500 5 5 5) + MIN_LAYOVER_MINUTES"
  by code_simp

subsection \<open>Rules for the heap, the loops and the walk back\<close>

lemma heappop_props:
  assumes "q \<noteq> []" "heappop q = (m, q')"
  shows "m \<in> set q" "\<forall>x\<in>set q. m \<le> x" "set q' \<subseteq> set q" "set q \<subseteq> insert m (set q')"
    "Suc (length q') = length q"
proof -
  from assms have m: "m = Min (set q)" and q': "q' = remove1 m q"
    by (auto simp add: heappop_def Let_def)
  show "m \<in> set q" using assms(1) m by (simp add: Min_in)
  then show "Suc (length q') = length q" using q' assms(1)
    by (simp add: length_remove1)
  show "\<forall>x\<in>set q. m \<le> x" using m by simp
  show "set q' \<subseteq> set q" using q' by (simp add: set_remove1_subset)
  show "set q \<subseteq> insert m (set q')"
  proof
    fix x assume "x \<in> set q"
    then show "x \<in> insert m (set q')" by (cases "x = m") (simp_all add: q')
  qed
qed

lemma earliest_loop_rule:
  assumes run: "earliest_loop graph start dst ed st = Some st'"
    and init: "I st"
    and step: "\<And>st t a q. I st \<Longrightarrow> pq st \<noteq> [] \<Longrightarrow> heappop (pq st) = ((t, a), q) \<Longrightarrow> a \<noteq> dst
        \<Longrightarrow> I (fold (relax_earliest start ed t a) (graph_get graph a) (st\<lparr>pq := q\<rparr>))"
    and empty: "\<And>st. I st \<Longrightarrow> pq st = [] \<Longrightarrow> Q st"
    and found: "\<And>st t q. I st \<Longrightarrow> pq st \<noteq> [] \<Longrightarrow> heappop (pq st) = ((t, dst), q) \<Longrightarrow> Q (st\<lparr>pq := q\<rparr>)"
  shows "Q st'"
proof -
  have "graph = graph \<and> start = start \<and> dst = dst \<and> ed = ed \<and> I st \<longrightarrow> Q st'"
  proof (rule earliest_loop.raw_induct
      [where P = "\<lambda>g s d e st st'. g = graph \<and> s = start \<and> d = dst \<and> e = ed \<and> I st \<longrightarrow> Q st'",
        OF _ run])
    fix f g s d e st st'
    assume IH: "\<And>g s d e st st'. f g s d e st = Some st'
        \<Longrightarrow> g = graph \<and> s = start \<and> d = dst \<and> e = ed \<and> I st \<longrightarrow> Q st'"
      and eq: "(if pq st = [] then Some st
          else case heappop (pq st) of
            ((time, airport), q) \<Rightarrow>
              if airport = d then Some (st\<lparr>pq := q\<rparr>)
              else f g s d e (fold (relax_earliest s e time airport) (graph_get g airport)
                     (st\<lparr>pq := q\<rparr>))) = Some st'"
    show "g = graph \<and> s = start \<and> d = dst \<and> e = ed \<and> I st \<longrightarrow> Q st'"
    proof (intro impI, elim conjE)
      assume g: "g = graph" "s = start" "d = dst" "e = ed" and I: "I st"
      show "Q st'"
      proof (cases "pq st = []")
        case True
        with eq I empty show ?thesis by auto
      next
        case False
        obtain t a q where pop: "heappop (pq st) = ((t, a), q)"
          by (metis surj_pair)
        show ?thesis
        proof (cases "a = dst")
          case True
          with eq False pop g found[OF I False] show ?thesis by auto
        next
          case False': False
          from eq False pop g False' have
            "f graph start dst ed (fold (relax_earliest start ed t a) (graph_get graph a)
                     (st\<lparr>pq := q\<rparr>)) = Some st'" by simp
          from IH[OF this] step[OF I False pop False'] show ?thesis by simp
        qed
      qed
    qed
  qed
  with init show ?thesis by simp
qed

lemma cheapest_loop_rule:
  assumes run: "cheapest_loop graph start dst ed cabin st = Some st'"
    and init: "I st"
    and step: "\<And>st c t a q. I st \<Longrightarrow> pq_c st \<noteq> [] \<Longrightarrow> heappop (pq_c st) = ((c, t, a), q) \<Longrightarrow> a \<noteq> dst
        \<Longrightarrow> I (fold (relax_cheapest start ed cabin c t a) (graph_get graph a) (st\<lparr>pq_c := q\<rparr>))"
    and empty: "\<And>st. I st \<Longrightarrow> pq_c st = [] \<Longrightarrow> Q st"
    and found: "\<And>st c t q. I st \<Longrightarrow> pq_c st \<noteq> [] \<Longrightarrow> heappop (pq_c st) = ((c, t, dst), q)
        \<Longrightarrow> Q (st\<lparr>pq_c := q\<rparr>)"
  shows "Q st'"
proof -
  have "graph = graph \<and> start = start \<and> dst = dst \<and> ed = ed \<and> cabin = cabin \<and> I st \<longrightarrow> Q st'"
  proof (rule cheapest_loop.raw_induct
      [where P = "\<lambda>g s d e cb st st'.
          g = graph \<and> s = start \<and> d = dst \<and> e = ed \<and> cb = cabin \<and> I st \<longrightarrow> Q st'",
        OF _ run])
    fix f g s d e cb st st'
    assume IH: "\<And>g s d e cb st st'. f g s d e cb st = Some st'
        \<Longrightarrow> g = graph \<and> s = start \<and> d = dst \<and> e = ed \<and> cb = cabin \<and> I st \<longrightarrow> Q st'"
      and eq: "(if pq_c st = [] then Some st
          else case heappop (pq_c st) of
            ((cost, time, airport), q) \<Rightarrow>
              if airport = d then Some (st\<lparr>pq_c := q\<rparr>)
              else f g s d e cb (fold (relax_cheapest s e cb cost time airport)
                     (graph_get g airport) (st\<lparr>pq_c := q\<rparr>))) = Some st'"
    show "g = graph \<and> s = start \<and> d = dst \<and> e = ed \<and> cb = cabin \<and> I st \<longrightarrow> Q st'"
    proof (intro impI, elim conjE)
      assume g: "g = graph" "s = start" "d = dst" "e = ed" "cb = cabin" and I: "I st"
      show "Q st'"
      proof (cases "pq_c st = []")
        case True
        with eq I empty show ?thesis by auto
      next
        case False
        obtain c t a q where pop: "heappop (pq_c st) = ((c, t, a), q)"
          by (metis surj_pair)
        show ?thesis
        proof (cases "a = dst")
          case True
          with eq False pop g found[OF I False] show ?thesis by auto
        next
          case False': False
          from eq False pop g False' have
            "f graph start dst ed cabin (fold (relax_cheapest start ed cabin c t a)
                (graph_get graph a) (st\<lparr>pq_c := q\<rparr>)) = Some st'" by simp
          from IH[OF this] step[OF I False pop False'] show ?thesis by simp
        qed
      qed
    qed
  qed
  with init show ?thesis by simp
qed

lemma fold_invariant:
  assumes "I st" "\<And>x st. x \<in> set xs \<Longrightarrow> I st \<Longrightarrow> I (f x st)"
  shows "I (fold f xs st)"
  using assms by (induction xs arbitrary: st) auto

text \<open>Both walks return exactly the flights that \<open>back_path\<close> collects.\<close>

lemma earliest_walk_complete:
  "back_path prv start cur p \<Longrightarrow> earliest_walk prv start cur fls = Some (Some (fls @ p))"
proof (induction arbitrary: fls rule: back_path.induct)
  case (stop prv start)
  show ?case by (simp add: earliest_walk.simps)
next
  case (step cur start prv fl rest)
  from step.hyps(1,2) step.IH[of "fls @ [fl]"] show ?case
    by (subst earliest_walk.simps) simp
qed

lemma cheapest_walk_complete:
  "back_path prv start cur p \<Longrightarrow> cheapest_walk prv start cur fls = Some (Inr (fls @ p))"
proof (induction arbitrary: fls rule: back_path.induct)
  case (stop prv start)
  show ?case by (simp add: cheapest_walk.simps)
next
  case (step cur start prv fl rest)
  from step.hyps(1,2) step.IH[of "fls @ [fl]"] show ?case
    by (subst cheapest_walk.simps) simp
qed

lemma earliest_walk_sound:
  assumes "earliest_walk prv0 start0 cur0 fls0 = Some (Some r0)"
  shows "\<exists>p. r0 = fls0 @ p \<and> back_path prv0 start0 cur0 p"
proof -
  have "\<forall>r'. Some r0 = Some r' \<longrightarrow> (\<exists>p. r' = fls0 @ p \<and> back_path prv0 start0 cur0 p)"
  proof (rule earliest_walk.raw_induct
    [where P = "\<lambda>prv start cur fls r. \<forall>r'. r = Some r' \<longrightarrow> (\<exists>p. r' = fls @ p \<and> back_path prv start cur p)",
      OF _ assms], intro allI impI)
  fix f prv start cur fls r r'
  assume IH: "\<And>prv start cur fls r. f prv start cur fls = Some r
      \<Longrightarrow> \<forall>r'. r = Some r' \<longrightarrow> (\<exists>p. r' = fls @ p \<and> back_path prv start cur p)"
    and eq: "(if cur = start then Some (Some fls)
        else case prv cur of None \<Rightarrow> Some None
          | Some fl \<Rightarrow> f prv start (origin fl) (fls @ [fl])) = Some r"
    and r: "r = Some r'"
  show "\<exists>p. r' = fls @ p \<and> back_path prv start cur p"
  proof (cases "cur = start")
    case True
    with eq r show ?thesis by (auto intro: back_path.stop)
  next
    case False
    with eq r obtain fl where fl: "prv cur = Some fl"
      and rec: "f prv start (origin fl) (fls @ [fl]) = Some (Some r')"
      by (auto split: option.splits)
    from IH[OF rec] obtain p where "r' = (fls @ [fl]) @ p" "back_path prv start (origin fl) p"
      by auto
    with False fl show ?thesis by (auto intro: back_path.step)
  qed
  qed
  then show ?thesis by simp
qed

lemma cheapest_walk_sound:
  assumes "cheapest_walk prv0 start0 cur0 fls0 = Some (Inr r0)"
  shows "\<exists>p. r0 = fls0 @ p \<and> back_path prv0 start0 cur0 p"
proof -
  have "\<forall>r'. (Inr r0 :: error + Flight list) = Inr r' \<longrightarrow> (\<exists>p. r' = fls0 @ p \<and> back_path prv0 start0 cur0 p)"
  proof (rule cheapest_walk.raw_induct
    [where P = "\<lambda>prv start cur fls r. \<forall>r'. r = Inr r' \<longrightarrow> (\<exists>p. r' = fls @ p \<and> back_path prv start cur p)",
      OF _ assms], intro allI impI)
  fix f prv start cur fls r r'
  assume IH: "\<And>prv start cur fls r. f prv start cur fls = Some r
      \<Longrightarrow> \<forall>r'. r = Inr r' \<longrightarrow> (\<exists>p. r' = fls @ p \<and> back_path prv start cur p)"
    and eq: "(if cur = start then Some (Inr fls)
        else case prv cur of None \<Rightarrow> Some (Inl KeyError)
          | Some fl \<Rightarrow> f prv start (origin fl) (fls @ [fl])) = Some r"
    and r: "r = Inr r'"
  show "\<exists>p. r' = fls @ p \<and> back_path prv start cur p"
  proof (cases "cur = start")
    case True
    with eq r show ?thesis by (auto intro: back_path.stop)
  next
    case False
    with eq r obtain fl where fl: "prv cur = Some fl"
      and rec: "f prv start (origin fl) (fls @ [fl]) = Some (Inr r')"
      by (auto split: option.splits)
    from IH[OF rec] obtain p where "r' = (fls @ [fl]) @ p" "back_path prv start (origin fl) p"
      by auto
    with False fl show ?thesis by (auto intro: back_path.step)
  qed
  qed
  then show ?thesis by simp
qed

inductive_cases back_path_NilE: "back_path prv start cur []"

lemma chained_snoc:
  "chained (fs @ [f]) \<longleftrightarrow> chained fs \<and> (fs \<noteq> [] \<longrightarrow> dest (last fs) = origin f)"
  by (induction fs rule: chained.induct) auto

lemma back_path_chained:
  assumes "back_path prv start cur p" "\<forall>X f. prv X = Some f \<longrightarrow> dest f = X"
  shows "chained (rev p) \<and> (p \<noteq> [] \<longrightarrow> dest (hd p) = cur \<and> origin (last p) = start)"
  using assms
proof (induction rule: back_path.induct)
  case (stop prv start)
  show ?case by simp
next
  case (step cur start prv fl rest)
  then show ?case
    by (auto simp: chained_snoc last_rev elim: back_path_NilE)
qed

subsection \<open>Predecessors are recorded under their own destination\<close>

lemma relax_earliest_prev_dest:
  assumes "\<forall>X f. prev st X = Some f \<longrightarrow> dest f = X"
  shows "\<forall>X f. prev (relax_earliest start ed t a fl st) X = Some f \<longrightarrow> dest f = X"
  using assms by (auto simp: relax_earliest_def Let_def)

lemma relax_cheapest_prev_dest:
  assumes "\<forall>X f. prev_c st X = Some f \<longrightarrow> dest f = X"
  shows "\<forall>X f. prev_c (relax_cheapest start ed cabin c t a fl st) X = Some f \<longrightarrow> dest f = X"
  using assms by (auto simp: relax_cheapest_def Let_def)

lemma earliest_loop_prev_dest:
  assumes "earliest_loop graph start dst ed (earliest_init start ed) = Some st"
  shows "\<forall>X f. prev st X = Some f \<longrightarrow> dest f = X"
proof (rule earliest_loop_rule
    [OF assms, where I = "\<lambda>st. \<forall>X f. prev st X = Some f \<longrightarrow> dest f = X"])
  show "\<forall>X f. prev (earliest_init start ed) X = Some f \<longrightarrow> dest f = X"
    by (simp add: earliest_init_def)
next
  fix st :: estate and t a q
  assume "\<forall>X f. prev st X = Some f \<longrightarrow> dest f = X"
  then have "\<forall>X f. prev (st\<lparr>pq := q\<rparr>) X = Some f \<longrightarrow> dest f = X" by simp
  then show "\<forall>X f. prev (fold (relax_earliest start ed t a) (graph_get graph a) (st\<lparr>pq := q\<rparr>)) X
      = Some f \<longrightarrow> dest f = X"
    by (rule fold_invariant) (rule relax_earliest_prev_dest)
qed simp_all

lemma cheapest_loop_prev_dest:
  assumes "cheapest_loop graph start dst ed cabin (cheapest_init start ed) = Some st"
  shows "\<forall>X f. prev_c st X = Some f \<longrightarrow> dest f = X"
proof (rule cheapest_loop_rule
    [OF assms, where I = "\<lambda>st. \<forall>X f. prev_c st X = Some f \<longrightarrow> dest f = X"])
  show "\<forall>X f. prev_c (cheapest_init start ed) X = Some f \<longrightarrow> dest f = X"
    by (simp add: cheapest_init_def)
next
  fix st :: cstate and c t a q
  assume "\<forall>X f. prev_c st X = Some f \<longrightarrow> dest f = X"
  then have "\<forall>X f. prev_c (st\<lparr>pq_c := q\<rparr>) X = Some f \<longrightarrow> dest f = X" by simp
  then show "\<forall>X f. prev_c (fold (relax_cheapest start ed cabin c t a) (graph_get graph a)
      (st\<lparr>pq_c := q\<rparr>)) X = Some f \<longrightarrow> dest f = X"
    by (rule fold_invariant) (rule relax_cheapest_prev_dest)
qed simp_all

text \<open>What a call that returns an itinerary went through.\<close>

lemma find_earliest_SomeD:
  assumes "find_earliest_itinerary graph start dst ed = Some (Some it)"
  obtains st where "earliest_loop graph start dst ed (earliest_init start ed) = Some st"
    and "back_path (prev st) start dst (rev (flights it))"
proof -
  from assms obtain st fls where
    st: "earliest_loop graph start dst ed (earliest_init start ed) = Some st"
    and w: "earliest_walk (prev st) start dst [] = Some (Some fls)" and it: "it = \<lparr>flights = rev fls\<rparr>"
    by (auto simp: find_earliest_itinerary_def split: option.splits if_splits)
  from earliest_walk_sound[OF w] it have "back_path (prev st) start dst (rev (flights it))"
    by simp
  with st that show thesis by blast
qed

lemma find_cheapest_SomeD:
  assumes "find_cheapest_itinerary graph start dst ed cabin = Some (Inr (Some it))"
  obtains st where "cheapest_loop graph start dst ed cabin (cheapest_init start ed) = Some st"
    and "back_path (prev_c st) start dst (rev (flights it))" and "prev_c st dst \<noteq> None"
proof -
  from assms obtain st fls where
    st: "cheapest_loop graph start dst ed cabin (cheapest_init start ed) = Some st"
    and w: "cheapest_walk (prev_c st) start dst [] = Some (Inr fls)"
    and it: "it = \<lparr>flights = rev fls\<rparr>" and d: "prev_c st dst \<noteq> None"
    by (auto simp: find_cheapest_itinerary_def split: option.splits if_splits sum.splits)
  from cheapest_walk_sound[OF w] it have "back_path (prev_c st) start dst (rev (flights it))"
    by simp
  with st d that show thesis by blast
qed

text \<open>
  C4. For every itinerary returned by either search, adjacent records chain
  (\<open>record[i].dest = record[i+1].origin\<close>), the first record's origin is the start
  argument and the last record's destination is the destination argument.
\<close>

theorem itinerary_chain:
  assumes "find_earliest_itinerary graph start dst ed = Some (Some it)
      \<or> find_cheapest_itinerary graph start dst ed cabin = Some (Inr (Some it))"
  shows "chained (flights it)
    \<and> (flights it \<noteq> [] \<longrightarrow> origin (hd (flights it)) = start \<and> dest (last (flights it)) = dst)"
proof -
  obtain prv where bp: "back_path prv start dst (rev (flights it))"
    and pd: "\<forall>X f. prv X = Some f \<longrightarrow> dest f = X"
    using assms
  proof
    assume "find_earliest_itinerary graph start dst ed = Some (Some it)"
    then show thesis
      by (rule find_earliest_SomeD) (blast intro: that dest: earliest_loop_prev_dest)
  next
    assume "find_cheapest_itinerary graph start dst ed cabin = Some (Inr (Some it))"
    then show thesis
      by (rule find_cheapest_SomeD) (blast intro: that dest: cheapest_loop_prev_dest)
  qed
  from back_path_chained[OF bp pd] show ?thesis
    by (simp add: hd_rev last_rev)
qed

theorem itinerary_chain_witness:
  "find_earliest_itinerary
     (build_graph [flight ''A'' ''B'' ''F1'' 480 540 100 200 300,
                   flight ''B'' ''C'' ''F2'' 600 660 50 80 120]) ''A'' ''C'' 420
     = Some (Some \<lparr>flights = [flight ''A'' ''B'' ''F1'' 480 540 100 200 300,
                             flight ''B'' ''C'' ''F2'' 600 660 50 80 120]\<rparr>)
   \<and> chained [flight ''A'' ''B'' ''F1'' 480 540 100 200 300,
              flight ''B'' ''C'' ''F2'' 600 660 50 80 120]
   \<and> origin (flight ''A'' ''B'' ''F1'' 480 540 100 200 300) = ''A''
   \<and> dest (flight ''B'' ''C'' ''F2'' 600 660 50 80 120) = ''C''"
proof -
  have run: "find_earliest_itinerary
     (build_graph [flight ''A'' ''B'' ''F1'' 480 540 100 200 300,
                   flight ''B'' ''C'' ''F2'' 600 660 50 80 120]) ''A'' ''C'' 420
     = Some (Some \<lparr>flights = [flight ''A'' ''B'' ''F1'' 480 540 100 200 300,
                             flight ''B'' ''C'' ''F2'' 600 660 50 80 120]\<rparr>)"
    by code_simp
  from itinerary_chain[OF disjI1, OF run] run show ?thesis by simp
qed

subsection \<open>Well-formed graphs\<close>

lemma graph_get_in_graph:
  assumes "f \<in> set (graph_get graph a)"
  shows "\<exists>fs. (a, fs) \<in> set graph \<and> f \<in> set fs"
proof (cases "map_of graph a")
  case None
  with assms show ?thesis by (simp add: graph_get_def)
next
  case (Some fs)
  with assms have "f \<in> set fs" by (simp add: graph_get_def)
  with map_of_SomeD[OF Some] show ?thesis by blast
qed

lemma graph_get_origin:
  "keyed_by_origin graph \<Longrightarrow> f \<in> set (graph_get graph a) \<Longrightarrow> origin f = a"
  by (auto simp: keyed_by_origin_def dest!: graph_get_in_graph)

lemma graph_get_times:
  "arrive_after_depart graph \<Longrightarrow> f \<in> set (graph_get graph a) \<Longrightarrow> depart f < arrive f"
  by (auto simp: arrive_after_depart_def dest!: graph_get_in_graph)

lemma graph_get_price:
  "nonneg_prices graph cabin \<Longrightarrow> f \<in> set (graph_get graph a) \<Longrightarrow> 0 \<le> price_for f cabin"
  by (auto simp: nonneg_prices_def dest!: graph_get_in_graph)

lemma set_update_cases:
  assumes "(k', v') \<in> set (AList.update k v al)"
  shows "(k', v') = (k, v) \<or> (k', v') \<in> set al"
  using assms by (induction al) (auto split: if_splits)

lemma graph_add_members:
  assumes "(a, fs) \<in> set (graph_add f graph)" "g \<in> set fs"
  shows "(a = origin f \<and> g = f) \<or> (\<exists>fs'. (a, fs') \<in> set graph \<and> g \<in> set fs')"
proof -
  from set_update_cases[OF assms(1)[unfolded graph_add_def]]
  show ?thesis
  proof
    assume "(a, fs) = (origin f, graph_get graph (origin f) @ [f])"
    with assms(2) have a: "a = origin f" and "g = f \<or> g \<in> set (graph_get graph (origin f))"
      by auto
    then show ?thesis using graph_get_in_graph[of g graph "origin f"] by auto
  next
    assume "(a, fs) \<in> set graph"
    with assms(2) show ?thesis by blast
  qed
qed

lemma build_graph_members:
  assumes "(a, fs) \<in> set (fold graph_add xs graph)" "g \<in> set fs"
  shows "(a = origin g \<and> g \<in> set xs) \<or> (\<exists>fs'. (a, fs') \<in> set graph \<and> g \<in> set fs')"
  using assms
proof (induction xs arbitrary: graph fs)
  case Nil
  then show ?case by auto
next
  case (Cons x xs)
  from Cons.IH[OF Cons.prems[simplified]] show ?case
    by (auto dest: graph_add_members)
qed

lemma build_graph_keyed: "keyed_by_origin (build_graph fs)"
  unfolding keyed_by_origin_def build_graph_def
  by (auto dest: build_graph_members)

lemma build_graph_times:
  "\<forall>f \<in> set fs. depart f < arrive f \<Longrightarrow> arrive_after_depart (build_graph fs)"
  unfolding arrive_after_depart_def build_graph_def
  by (auto dest: build_graph_members)

lemma build_graph_prices:
  "\<forall>f \<in> set fs. 0 \<le> price_for f cabin \<Longrightarrow> nonneg_prices (build_graph fs) cabin"
  unfolding nonneg_prices_def build_graph_def
  by (auto dest: build_graph_members)

subsection \<open>The predecessor links lead back to the start\<close>

text \<open>
  Recording a new predecessor for \<open>X\<close>, whose label is above \<open>c\<close>, leaves every walk back
  from an airport labelled at most \<open>c\<close> as it was: such a walk does not pass \<open>X\<close>.
\<close>

lemma back_path_below:
  assumes "back_path prv start Y p" "links_mono prv lab"
    and "lab Y = Some y" "y \<le> c" "\<forall>x. lab X = Some x \<longrightarrow> c < x"
  shows "back_path (prv(X \<mapsto> f)) start Y p"
  using assms
proof (induction arbitrary: y rule: back_path.induct)
  case (stop prv start)
  show ?case by (rule back_path.stop)
next
  case (step cur start prv fl rest)
  from step.prems(2,3,4) have ne: "cur \<noteq> X" by auto
  from step.prems(1) step.hyps(2) obtain a b where
    "lab (origin fl) = Some a" "lab cur = Some b" "a \<le> b"
    unfolding links_mono_def by blast
  with step.prems(2,3) have "lab (origin fl) = Some a" "a \<le> c" by auto
  from step.IH[OF step.prems(1) this step.prems(4)]
  have rest: "back_path (prv(X \<mapsto> f)) start (origin fl) rest" .
  show ?case
  proof (rule back_path.step)
    show "cur \<noteq> start" by fact
    show "(prv(X \<mapsto> f)) cur = Some fl" using ne step.hyps(2) by simp
    show "back_path (prv(X \<mapsto> f)) start (origin fl) rest" by fact
  qed
qed

lemma back_path_redirect:
  assumes "back_path prv start W p" "back_path (prv(X \<mapsto> f)) start (origin f) q"
  shows "\<exists>p'. back_path (prv(X \<mapsto> f)) start W p'"
  using assms
proof (induction rule: back_path.induct)
  case (stop prv start)
  show ?case by (blast intro: back_path.stop)
next
  case (step cur start prv fl rest)
  show ?case
  proof (cases "cur = X")
    case True
    have "back_path (prv(X \<mapsto> f)) start cur (f # q)"
    proof (rule back_path.step)
      show "cur \<noteq> start" by fact
      show "(prv(X \<mapsto> f)) cur = Some f" using True by simp
      show "back_path (prv(X \<mapsto> f)) start (origin f) q" by fact
    qed
    then show ?thesis by blast
  next
    case False
    from step.IH[OF step.prems] obtain p' where
      "back_path (prv(X \<mapsto> f)) start (origin fl) p'" by blast
    have "back_path (prv(X \<mapsto> f)) start cur (fl # p')"
    proof (rule back_path.step)
      show "cur \<noteq> start" by fact
      show "(prv(X \<mapsto> f)) cur = Some fl" using False step.hyps(2) by simp
      show "back_path (prv(X \<mapsto> f)) start (origin fl) p'" by fact
    qed
    then show ?thesis by blast
  qed
qed

text \<open>
  One relaxation, on the maps alone: \<open>X\<close> gets the label \<open>n\<close> and the predecessor \<open>f\<close>,
  where the origin of \<open>f\<close> is labelled at most \<open>c \<le> n\<close> and \<open>n\<close> improves on the label
  of \<open>X\<close>.
\<close>

lemma relabel_links_mono:
  assumes "links_mono prv lab" "lab (origin f) = Some a" "a \<le> n"
    and "\<forall>x. lab X = Some x \<longrightarrow> n < x"
  shows "links_mono (prv(X \<mapsto> f)) (lab(X \<mapsto> n))"
  unfolding links_mono_def
proof (intro allI impI)
  fix Z g
  assume Z: "(prv(X \<mapsto> f)) Z = Some g"
  show "\<exists>a b. (lab(X \<mapsto> n)) (origin g) = Some a \<and> (lab(X \<mapsto> n)) Z = Some b \<and> a \<le> b"
  proof (cases "Z = X")
    case True
    with Z have "g = f" by simp
    with True assms(2,3) show ?thesis by auto
  next
    case False
    with Z have "prv Z = Some g" by simp
    with assms(1) obtain a' b' where
      "lab (origin g) = Some a'" "lab Z = Some b'" "a' \<le> b'"
      unfolding links_mono_def by blast
    with False assms(4) show ?thesis by (cases "origin g = X") auto
  qed
qed

lemma relabel_back_paths:
  assumes lm: "links_mono prv lab"
    and all: "\<forall>Y b. lab Y = Some b \<longrightarrow> (\<exists>p. back_path prv start Y p)"
    and a: "lab (origin f) = Some a" "a \<le> c" "c \<le> n"
    and imp: "\<forall>x. lab X = Some x \<longrightarrow> n < x"
  shows "\<forall>Y b. (lab(X \<mapsto> n)) Y = Some b \<longrightarrow> (\<exists>p. back_path (prv(X \<mapsto> f)) start Y p)"
proof (intro allI impI)
  fix Y b
  assume Y: "(lab(X \<mapsto> n)) Y = Some b"
  from all a(1) obtain q where "back_path prv start (origin f) q" by blast
  from back_path_below[OF this lm a(1,2)] imp a(3)
  have q: "back_path (prv(X \<mapsto> f)) start (origin f) q" by force
  show "\<exists>p. back_path (prv(X \<mapsto> f)) start Y p"
  proof (cases "Y = X")
    case True
    show ?thesis
    proof (cases "X = start")
      case True
      with \<open>Y = X\<close> show ?thesis by (blast intro: back_path.stop)
    next
      case False
      have "back_path (prv(X \<mapsto> f)) start X (f # q)"
      proof (rule back_path.step)
        show "X \<noteq> start" by fact
        show "(prv(X \<mapsto> f)) X = Some f" by simp
        show "back_path (prv(X \<mapsto> f)) start (origin f) q" by fact
      qed
      with True show ?thesis by blast
    qed
  next
    case False
    with Y all obtain p where "back_path prv start Y p" by auto
    from back_path_redirect[OF this q] show ?thesis .
  qed
qed

subsection \<open>Invariant of the cheapest-fare loop\<close>

lemma relax_cheapest_unfold:
  "relax_cheapest start ed cabin c t a fl st = st
   \<or> (relax_cheapest start ed cabin c t a fl st =
        st\<lparr>best_cost := (best_cost st)(dest fl \<mapsto> c + price_for fl cabin),
            best_time_c := (best_time_c st)(dest fl \<mapsto> arrive fl),
            prev_c := (prev_c st)(dest fl \<mapsto> fl),
            pq_c := (c + price_for fl cabin, arrive fl, dest fl) # pq_c st\<rparr>
      \<and> (\<forall>x. best_cost st (dest fl) = Some x \<longrightarrow> c + price_for fl cabin < x)
      \<and> (if a = start then ed else t + MIN_LAYOVER_MINUTES) \<le> depart fl)"
  by (simp add: relax_cheapest_def Let_def heappush_def split: option.splits)

lemma relax_cheapest_cases:
  obtains (same) "relax_cheapest start ed cabin c t a fl st = st"
  | (update) "relax_cheapest start ed cabin c t a fl st =
        st\<lparr>best_cost := (best_cost st)(dest fl \<mapsto> c + price_for fl cabin),
            best_time_c := (best_time_c st)(dest fl \<mapsto> arrive fl),
            prev_c := (prev_c st)(dest fl \<mapsto> fl),
            pq_c := (c + price_for fl cabin, arrive fl, dest fl) # pq_c st\<rparr>"
      "\<forall>x. best_cost st (dest fl) = Some x \<longrightarrow> c + price_for fl cabin < x"
      "(if a = start then ed else t + MIN_LAYOVER_MINUTES) \<le> depart fl"
  using relax_cheapest_unfold[of start ed cabin c t a fl st] by blast

lemma relax_cheapest_inv:
  assumes inv: "cheapest_inv start st"
    and a: "best_cost st a = Some ba" "ba \<le> c"
    and fl: "origin fl = a" "0 \<le> price_for fl cabin"
  shows "cheapest_inv start (relax_cheapest start ed cabin c t a fl st)
    \<and> (\<exists>ba'. best_cost (relax_cheapest start ed cabin c t a fl st) a = Some ba' \<and> ba' \<le> c)"
proof (cases rule: relax_cheapest_cases[of start ed cabin c t a fl st])
  case same
  with inv a show ?thesis by simp
next
  case update
  let ?n = "c + price_for fl cabin"
  let ?X = "dest fl"
  from inv have q: "\<forall>(c, t, Y) \<in> set (pq_c st). \<exists>b. best_cost st Y = Some b \<and> b \<le> c"
    and lm: "links_mono (prev_c st) (best_cost st)"
    and bp: "\<forall>Y b. best_cost st Y = Some b \<longrightarrow> (\<exists>p. back_path (prev_c st) start Y p)"
    by (simp_all add: cheapest_inv_def)
  from fl a have oa: "best_cost st (origin fl) = Some ba" "ba \<le> ?n" "c \<le> ?n" by auto
  have q': "\<forall>(c', t', Y) \<in> set ((?n, arrive fl, ?X) # pq_c st).
      \<exists>b. ((best_cost st)(?X \<mapsto> ?n)) Y = Some b \<and> b \<le> c'"
  proof (clarify)
    fix c' t' Y
    assume "(c', t', Y) \<in> set ((?n, arrive fl, ?X) # pq_c st)"
    then consider "c' = ?n" "Y = ?X" | "(c', t', Y) \<in> set (pq_c st)" by auto
    then show "\<exists>b. ((best_cost st)(?X \<mapsto> ?n)) Y = Some b \<and> b \<le> c'"
    proof cases
      case 1
      then show ?thesis by simp
    next
      case 2
      with q obtain b where "best_cost st Y = Some b" "b \<le> c'" by blast
      with update(2) show ?thesis by (cases "Y = ?X") auto
    qed
  qed
  have lm': "links_mono ((prev_c st)(?X \<mapsto> fl)) ((best_cost st)(?X \<mapsto> ?n))"
    by (rule relabel_links_mono[OF lm oa(1,2) update(2)])
  have bp': "\<forall>Y b. ((best_cost st)(?X \<mapsto> ?n)) Y = Some b
      \<longrightarrow> (\<exists>p. back_path ((prev_c st)(?X \<mapsto> fl)) start Y p)"
    by (rule relabel_back_paths[OF lm bp oa(1) a(2) oa(3) update(2)])
  have a': "\<exists>ba'. ((best_cost st)(?X \<mapsto> ?n)) a = Some ba' \<and> ba' \<le> c"
  proof (cases "a = ?X")
    case True
    with update(2) a oa show ?thesis by auto
  next
    case False
    with a show ?thesis by simp
  qed
  from q' lm' bp' a' show ?thesis
    unfolding update(1) cheapest_inv_def by simp
qed

lemma cheapest_loop_inv:
  assumes run: "cheapest_loop graph start dst ed cabin (cheapest_init start ed) = Some st"
    and g: "keyed_by_origin graph" "nonneg_prices graph cabin"
  shows "links_mono (prev_c st) (best_cost st)
    \<and> (\<forall>Y b. best_cost st Y = Some b \<longrightarrow> (\<exists>p. back_path (prev_c st) start Y p))"
proof (rule cheapest_loop_rule[OF run, where I = "cheapest_inv start"])
  have "\<exists>p. back_path Map.empty start start p" by (blast intro: back_path.stop)
  then show "cheapest_inv start (cheapest_init start ed)"
    by (simp add: cheapest_inv_def cheapest_init_def links_mono_def)
next
  fix st :: cstate and c t a q
  assume inv: "cheapest_inv start st" and ne: "pq_c st \<noteq> []"
    and pop: "heappop (pq_c st) = ((c, t, a), q)"
  from heappop_props(1,3)[OF ne pop]
  have m: "(c, t, a) \<in> set (pq_c st)" and sub: "set q \<subseteq> set (pq_c st)" .
  from inv have qs: "\<forall>(c, t, Y) \<in> set (pq_c st). \<exists>b. best_cost st Y = Some b \<and> b \<le> c"
    by (simp add: cheapest_inv_def)
  from qs sub have "\<forall>(c, t, Y) \<in> set q. \<exists>b. best_cost st Y = Some b \<and> b \<le> c"
    by blast
  with inv have inv': "cheapest_inv start (st\<lparr>pq_c := q\<rparr>)"
    by (simp add: cheapest_inv_def)
  from qs m have "\<exists>ba. best_cost st a = Some ba \<and> ba \<le> c" by blast
  with inv' have "cheapest_inv start (st\<lparr>pq_c := q\<rparr>)
      \<and> (\<exists>ba. best_cost (st\<lparr>pq_c := q\<rparr>) a = Some ba \<and> ba \<le> c)" by simp
  then have "cheapest_inv start (fold (relax_cheapest start ed cabin c t a) (graph_get graph a)
        (st\<lparr>pq_c := q\<rparr>))
      \<and> (\<exists>ba. best_cost (fold (relax_cheapest start ed cabin c t a) (graph_get graph a)
        (st\<lparr>pq_c := q\<rparr>)) a = Some ba \<and> ba \<le> c)"
  proof (rule fold_invariant)
    fix fl and s :: cstate
    assume fl: "fl \<in> set (graph_get graph a)"
      and "cheapest_inv start s \<and> (\<exists>ba. best_cost s a = Some ba \<and> ba \<le> c)"
    then obtain ba where s: "cheapest_inv start s" "best_cost s a = Some ba" "ba \<le> c"
      by blast
    show "cheapest_inv start (relax_cheapest start ed cabin c t a fl s)
      \<and> (\<exists>ba. best_cost (relax_cheapest start ed cabin c t a fl s) a = Some ba \<and> ba \<le> c)"
      by (rule relax_cheapest_inv[OF s graph_get_origin[OF g(1) fl] graph_get_price[OF g(2) fl]])
  qed
  then show "cheapest_inv start (fold (relax_cheapest start ed cabin c t a) (graph_get graph a)
        (st\<lparr>pq_c := q\<rparr>))" ..
next
  fix st :: cstate
  assume "cheapest_inv start st"
  then show "links_mono (prev_c st) (best_cost st)
    \<and> (\<forall>Y b. best_cost st Y = Some b \<longrightarrow> (\<exists>p. back_path (prev_c st) start Y p))"
    by (simp add: cheapest_inv_def)
next
  fix st :: cstate and c t q
  assume "cheapest_inv start st"
  then show "links_mono (prev_c (st\<lparr>pq_c := q\<rparr>)) (best_cost (st\<lparr>pq_c := q\<rparr>))
    \<and> (\<forall>Y b. best_cost (st\<lparr>pq_c := q\<rparr>) Y = Some b
        \<longrightarrow> (\<exists>p. back_path (prev_c (st\<lparr>pq_c := q\<rparr>)) start Y p))"
    by (simp add: cheapest_inv_def)
qed

lemma cheapest_loop_back_path:
  assumes "cheapest_loop graph start dst ed cabin (cheapest_init start ed) = Some st"
    and "keyed_by_origin graph" "nonneg_prices graph cabin"
    and "prev_c st Z \<noteq> None"
  shows "\<exists>p. back_path (prev_c st) start Z p"
proof -
  from cheapest_loop_inv[OF assms(1-3)] assms(4) show ?thesis
    unfolding links_mono_def by blast
qed

text \<open>
  C6. Assuming every flight's price for the chosen cabin is non-negative (and the
  graph lists each flight under its origin), whenever the search loop of
  \<open>find_cheapest_itinerary\<close> ends with the destination in the predecessor map, the
  unguarded backward walk never reads a missing key and reaches the start in finitely
  many steps: it returns a flight list, neither raising \<^verbatim>\<open>KeyError\<close> nor running for
  ever.
\<close>

theorem cheapest_walk_safe:
  assumes "keyed_by_origin graph" "nonneg_prices graph cabin"
    and "cheapest_loop graph start dst ed cabin (cheapest_init start ed) = Some st"
    and "prev_c st dst \<noteq> None"
  shows "\<exists>fls. cheapest_walk (prev_c st) start dst [] = Some (Inr fls)"
proof -
  from cheapest_loop_back_path[OF assms(3,1,2,4)] obtain p
    where "back_path (prev_c st) start dst p" ..
  from cheapest_walk_complete[OF this, of "[]"] show ?thesis by simp
qed

theorem cheapest_walk_safe_witness:
  "keyed_by_origin (build_graph [flight ''A'' ''B'' ''F1'' 480 540 100 200 300,
                                 flight ''B'' ''C'' ''F2'' 600 660 50 80 120])
   \<and> nonneg_prices (build_graph [flight ''A'' ''B'' ''F1'' 480 540 100 200 300,
                                 flight ''B'' ''C'' ''F2'' 600 660 50 80 120]) Economy
   \<and> (\<exists>st. cheapest_loop (build_graph [flight ''A'' ''B'' ''F1'' 480 540 100 200 300,
                                        flight ''B'' ''C'' ''F2'' 600 660 50 80 120])
              ''A'' ''C'' 420 Economy (cheapest_init ''A'' 420) = Some st
          \<and> prev_c st ''C'' \<noteq> None
          \<and> (\<exists>fls. cheapest_walk (prev_c st) ''A'' ''C'' [] = Some (Inr fls)))"
proof -
  let ?g = "build_graph [flight ''A'' ''B'' ''F1'' 480 540 100 200 300,
                         flight ''B'' ''C'' ''F2'' 600 660 50 80 120]"
  have k: "keyed_by_origin ?g" by (rule build_graph_keyed)
  have n: "nonneg_prices ?g Economy"
    by (rule build_graph_prices) (simp add: flight_def price_for_def)
  have "find_cheapest_itinerary ?g ''A'' ''C'' 420 Economy
      = Some (Inr (Some \<lparr>flights = [flight ''A'' ''B'' ''F1'' 480 540 100 200 300,
                                    flight ''B'' ''C'' ''F2'' 600 660 50 80 120]\<rparr>))"
    by code_simp
  then obtain st where st: "cheapest_loop ?g ''A'' ''C'' 420 Economy (cheapest_init ''A'' 420) = Some st"
    and d: "prev_c st ''C'' \<noteq> None"
    by (rule find_cheapest_SomeD)
  from cheapest_walk_safe[OF k n st d] k n st d show ?thesis by blast
qed

subsection \<open>Termination of the search loops\<close>

lemma graph_get_all_flights: "f \<in> set (graph_get graph a) \<Longrightarrow> f \<in> set (all_flights graph)"
  using graph_get_in_graph[of f graph a] by (force simp: all_flights_def)

lemma filter_length_less:
  assumes "\<forall>x \<in> set xs. Q x \<longrightarrow> P x" "y \<in> set xs" "P y" "\<not> Q y"
  shows "length (filter Q xs) < length (filter P xs)"
  using assms
proof (induction xs)
  case Nil
  then show ?case by simp
next
  case (Cons x xs)
  have le: "length (filter Q xs) \<le> length (filter P xs)"
  proof -
    have "filter Q xs = filter Q (filter P xs)"
      using Cons.prems(1) by (auto intro: filter_cong)
    then show ?thesis by (metis length_filter_le)
  qed
  show ?case
  proof (cases "y = x")
    case True
    with Cons.prems le show ?thesis by simp
  next
    case False
    with Cons.prems have "length (filter Q xs) < length (filter P xs)"
      by (intro Cons.IH) auto
    with Cons.prems(1) show ?thesis by auto
  qed
qed

subsection \<open>Earliest-arrival loop\<close>

lemma relax_earliest_unfold:
  "relax_earliest start ed t a fl st = st
   \<or> (relax_earliest start ed t a fl st =
        st\<lparr>best_time := (best_time st)(dest fl \<mapsto> arrive fl),
            prev := (prev st)(dest fl \<mapsto> fl),
            pq := (arrive fl, dest fl) # pq st\<rparr>
      \<and> (\<forall>x. best_time st (dest fl) = Some x \<longrightarrow> arrive fl < x)
      \<and> (if a = start then ed else t + MIN_LAYOVER_MINUTES) \<le> depart fl)"
  by (simp add: relax_earliest_def Let_def heappush_def split: option.splits)

lemma relax_earliest_cases:
  obtains (same) "relax_earliest start ed t a fl st = st"
  | (update) "relax_earliest start ed t a fl st =
        st\<lparr>best_time := (best_time st)(dest fl \<mapsto> arrive fl),
            prev := (prev st)(dest fl \<mapsto> fl),
            pq := (arrive fl, dest fl) # pq st\<rparr>"
      "\<forall>x. best_time st (dest fl) = Some x \<longrightarrow> arrive fl < x"
      "(if a = start then ed else t + MIN_LAYOVER_MINUTES) \<le> depart fl"
  using relax_earliest_unfold[of start ed t a fl st] by blast

lemma relax_earliest_measure:
  assumes "fl \<in> set (all_flights graph)"
  shows "earliest_measure graph (relax_earliest start ed t a fl st) \<le> earliest_measure graph st"
proof (cases rule: relax_earliest_cases[of start ed t a fl st])
  case same
  then show ?thesis by simp
next
  case update
  let ?best' = "(best_time st)(dest fl \<mapsto> arrive fl)"
  have "length (filter (improvable ?best') (all_flights graph))
      < length (filter (improvable (best_time st)) (all_flights graph))"
  proof (rule filter_length_less[OF _ assms])
    show "\<forall>x \<in> set (all_flights graph). improvable ?best' x \<longrightarrow> improvable (best_time st) x"
      using update(2) by (auto simp: improvable_def split: option.splits if_splits)
    show "improvable (best_time st) fl"
      using update(2) by (auto simp: improvable_def split: option.splits)
    show "\<not> improvable ?best' fl" by (simp add: improvable_def)
  qed
  then show ?thesis unfolding update(1) earliest_measure_def by simp
qed

lemma fold_relax_earliest_measure:
  assumes "set fs \<subseteq> set (all_flights graph)"
  shows "earliest_measure graph (fold (relax_earliest start ed t a) fs st)
    \<le> earliest_measure graph st"
  using assms
proof (induction fs arbitrary: st)
  case Nil
  show ?case by simp
next
  case (Cons f fs)
  have "earliest_measure graph (fold (relax_earliest start ed t a) fs
          (relax_earliest start ed t a f st))
      \<le> earliest_measure graph (relax_earliest start ed t a f st)"
    using Cons.prems by (intro Cons.IH) simp
  also have "\<dots> \<le> earliest_measure graph st"
    using Cons.prems by (intro relax_earliest_measure) simp
  finally show ?case by simp
qed

lemma earliest_loop_terminates:
  "\<exists>st'. earliest_loop graph start dst ed st = Some st'"
proof (induction "earliest_measure graph st" arbitrary: st rule: less_induct)
  case less
  show ?case
  proof (cases "pq st = []")
    case True
    then show ?thesis by (subst earliest_loop.simps) simp
  next
    case False
    obtain t a q where pop: "heappop (pq st) = ((t, a), q)"
      by (metis surj_pair)
    show ?thesis
    proof (cases "a = dst")
      case True
      with False pop show ?thesis by (subst earliest_loop.simps) simp
    next
      case ne: False
      let ?st' = "fold (relax_earliest start ed t a) (graph_get graph a) (st\<lparr>pq := q\<rparr>)"
      have "earliest_measure graph ?st' \<le> earliest_measure graph (st\<lparr>pq := q\<rparr>)"
        by (rule fold_relax_earliest_measure) (auto dest: graph_get_all_flights)
      also have "\<dots> < earliest_measure graph st"
        using heappop_props(5)[OF False pop] by (simp add: earliest_measure_def)
      finally have "\<exists>st'. earliest_loop graph start dst ed ?st' = Some st'"
        by (rule less.hyps)
      with False pop ne show ?thesis by (subst earliest_loop.simps) simp
    qed
  qed
qed

subsection \<open>Cheapest-fare loop\<close>

lemma wf_cheapest_order: "wf (cheapest_order graph start)"
  unfolding cheapest_order_def by (intro wf_inv_image wf_lex_prod wf_less_than)

lemma no_worse_refl: "no_worse graph start st st"
  by (simp add: no_worse_def)

lemma no_worse_trans:
  "no_worse graph start st2 st1 \<Longrightarrow> no_worse graph start st1 st \<Longrightarrow> no_worse graph start st2 st"
  unfolding no_worse_def by linarith

lemma sum_list_less:
  fixes f g :: "'a \<Rightarrow> nat"
  assumes "\<forall>x \<in> set xs. f x \<le> g x" "y \<in> set xs" "f y < g y"
  shows "sum_list (map f xs) < sum_list (map g xs)"
  using assms
proof (induction xs)
  case Nil
  then show ?case by simp
next
  case (Cons x xs)
  have le: "sum_list (map f xs) \<le> sum_list (map g xs)"
    using Cons.prems(1) by (intro sum_list_mono) simp
  show ?case
  proof (cases "y = x")
    case True
    with Cons.prems le show ?thesis by simp
  next
    case False
    with Cons.prems have "sum_list (map f xs) < sum_list (map g xs)"
      by (intro Cons.IH) auto
    with Cons.prems(1) show ?thesis by (simp add: add_le_less_mono)
  qed
qed

lemma relax_cheapest_no_worse:
  assumes fl: "fl \<in> set (all_flights graph)" "0 \<le> price_for fl cabin" and c: "0 \<le> c"
  shows "no_worse graph start (relax_cheapest start ed cabin c t a fl st) st"
proof (cases rule: relax_cheapest_cases[of start ed cabin c t a fl st])
  case same
  then show ?thesis by (simp add: no_worse_refl)
next
  case update
  let ?n = "c + price_for fl cabin"
  let ?st' = "relax_cheapest start ed cabin c t a fl st"
  have bc': "best_cost ?st' = (best_cost st)(dest fl \<mapsto> ?n)"
    unfolding update(1) by simp
  have mem: "dest fl \<in> set (airports graph start)"
    using fl(1) by (simp add: airports_def)
  show ?thesis
  proof (cases "best_cost st (dest fl)")
    case None
    have "unlabelled graph start ?st' < unlabelled graph start st"
      unfolding unlabelled_def bc'
      by (rule filter_length_less[OF _ mem]) (auto simp: None)
    then show ?thesis by (simp add: no_worse_def)
  next
    case (Some b)
    with update(2) have lt: "?n < b" by simp
    have "(\<lambda>n. ((best_cost st)(dest fl \<mapsto> ?n)) n = None) = (\<lambda>n. best_cost st n = None)"
      using Some by auto
    then have u: "unlabelled graph start ?st' = unlabelled graph start st"
      unfolding unlabelled_def bc' by simp
    have "cost_sum graph start ?st' < cost_sum graph start st"
      unfolding cost_sum_def bc'
    proof (rule sum_list_less[OF _ mem])
      show "\<forall>x \<in> set (airports graph start).
          (case ((best_cost st)(dest fl \<mapsto> ?n)) x of None \<Rightarrow> 0 | Some c \<Rightarrow> nat c)
          \<le> (case best_cost st x of None \<Rightarrow> 0 | Some c \<Rightarrow> nat c)"
        using Some lt by auto
      show "(case ((best_cost st)(dest fl \<mapsto> ?n)) (dest fl) of None \<Rightarrow> 0 | Some c \<Rightarrow> nat c)
          < (case best_cost st (dest fl) of None \<Rightarrow> 0 | Some c \<Rightarrow> nat c)"
        using Some lt fl(2) c by simp
    qed
    with u show ?thesis by (simp add: no_worse_def)
  qed
qed

lemma relax_cheapest_nonneg:
  assumes "\<forall>(c', t', Y) \<in> set (pq_c st). 0 \<le> c'" "0 \<le> price_for fl cabin" "0 \<le> c"
  shows "\<forall>(c', t', Y) \<in> set (pq_c (relax_cheapest start ed cabin c t a fl st)). 0 \<le> c'"
proof (cases rule: relax_cheapest_cases[of start ed cabin c t a fl st])
  case same
  with assms(1) show ?thesis by simp
next
  case update
  from assms show ?thesis unfolding update(1) by simp
qed

lemma fold_relax_cheapest_progress:
  assumes "set fs \<subseteq> set (all_flights graph)" "\<forall>f \<in> set fs. 0 \<le> price_for f cabin"
    and "0 \<le> c" "\<forall>(c', t', Y) \<in> set (pq_c st). 0 \<le> c'"
  shows "no_worse graph start (fold (relax_cheapest start ed cabin c t a) fs st) st
    \<and> (\<forall>(c', t', Y) \<in> set (pq_c (fold (relax_cheapest start ed cabin c t a) fs st)). 0 \<le> c')"
  using assms
proof (induction fs arbitrary: st)
  case Nil
  then show ?case by (simp add: no_worse_refl)
next
  case (Cons f fs)
  let ?st1 = "relax_cheapest start ed cabin c t a f st"
  have 1: "no_worse graph start ?st1 st"
    using Cons.prems by (intro relax_cheapest_no_worse) auto
  have 2: "\<forall>(c', t', Y) \<in> set (pq_c ?st1). 0 \<le> c'"
    using Cons.prems by (intro relax_cheapest_nonneg) auto
  have "no_worse graph start (fold (relax_cheapest start ed cabin c t a) fs ?st1) ?st1
    \<and> (\<forall>(c', t', Y) \<in> set (pq_c (fold (relax_cheapest start ed cabin c t a) fs ?st1)). 0 \<le> c')"
    using Cons.prems 2 by (intro Cons.IH) auto
  with 1 show ?case by (auto intro: no_worse_trans)
qed

lemma cheapest_loop_terminates:
  assumes "nonneg_prices graph cabin" "\<forall>(c, t, Y) \<in> set (pq_c st). 0 \<le> c"
  shows "\<exists>st'. cheapest_loop graph start dst ed cabin st = Some st'"
  using assms(2)
proof (induction st rule: wf_induct_rule[OF wf_cheapest_order[of graph start]])
  case (1 st)
  show ?case
  proof (cases "pq_c st = []")
    case True
    then show ?thesis by (subst cheapest_loop.simps) simp
  next
    case False
    obtain c t a q where pop: "heappop (pq_c st) = ((c, t, a), q)"
      by (metis surj_pair)
    show ?thesis
    proof (cases "a = dst")
      case True
      with False pop show ?thesis by (subst cheapest_loop.simps) simp
    next
      case ne: False
      let ?st0 = "st\<lparr>pq_c := q\<rparr>"
      let ?st' = "fold (relax_cheapest start ed cabin c t a) (graph_get graph a) ?st0"
      from heappop_props(1,3)[OF False pop] "1.prems"
      have c: "0 \<le> c" and q: "\<forall>(c', t', Y) \<in> set (pq_c ?st0). 0 \<le> c'" by auto
      have "no_worse graph start ?st' ?st0 \<and> (\<forall>(c', t', Y) \<in> set (pq_c ?st'). 0 \<le> c')"
      proof (rule fold_relax_cheapest_progress[OF _ _ c q])
        show "set (graph_get graph a) \<subseteq> set (all_flights graph)"
          by (auto dest: graph_get_all_flights)
        show "\<forall>f \<in> set (graph_get graph a). 0 \<le> price_for f cabin"
          using graph_get_price[OF assms(1)] by blast
      qed
      then have nw: "no_worse graph start ?st' ?st0"
        and q': "\<forall>(c', t', Y) \<in> set (pq_c ?st'). 0 \<le> c'" by simp_all
      have "(?st', st) \<in> cheapest_order graph start"
        using nw heappop_props(5)[OF False pop]
        by (auto simp: cheapest_order_def no_worse_def unlabelled_def cost_sum_def)
      from "1.IH"[OF this q'] have "\<exists>st'. cheapest_loop graph start dst ed cabin ?st' = Some st'" .
      with False pop ne show ?thesis by (subst cheapest_loop.simps) simp
    qed
  qed
qed

subsection \<open>Invariant of the earliest-arrival loop\<close>

lemma relax_earliest_inv:
  assumes inv: "earliest_inv start ed st"
    and a: "best_time st a = Some ba" "ba \<le> t"
    and fl: "origin fl = a" "depart fl < arrive fl"
  shows "earliest_inv start ed (relax_earliest start ed t a fl st)
    \<and> (\<exists>ba'. best_time (relax_earliest start ed t a fl st) a = Some ba' \<and> ba' \<le> t)"
proof (cases rule: relax_earliest_cases[of start ed t a fl st])
  case same
  with inv a show ?thesis by simp
next
  case update
  let ?n = "arrive fl"
  let ?X = "dest fl"
  from inv have q: "\<forall>(t, Y) \<in> set (pq st). \<exists>b. best_time st Y = Some b \<and> b \<le> t"
    and s: "\<exists>b. best_time st start = Some b \<and> b \<le> ed"
    and lm: "links_mono (prev st) (best_time st)"
    and bp: "\<forall>Y b. best_time st Y = Some b \<longrightarrow> (\<exists>p. back_path (prev st) start Y p)"
    by (simp_all add: earliest_inv_def)
  have "ba \<le> depart fl"
  proof (cases "a = start")
    case True
    with s a(1) update(3) show ?thesis by auto
  next
    case False
    with a(2) update(3) show ?thesis by (simp add: MIN_LAYOVER_MINUTES_def)
  qed
  with fl a have oa: "best_time st (origin fl) = Some ba" "ba \<le> ?n" by auto
  have q': "\<forall>(t', Y) \<in> set ((?n, ?X) # pq st).
      \<exists>b. ((best_time st)(?X \<mapsto> ?n)) Y = Some b \<and> b \<le> t'"
  proof (clarify)
    fix t' Y
    assume "(t', Y) \<in> set ((?n, ?X) # pq st)"
    then consider "t' = ?n" "Y = ?X" | "(t', Y) \<in> set (pq st)" by auto
    then show "\<exists>b. ((best_time st)(?X \<mapsto> ?n)) Y = Some b \<and> b \<le> t'"
    proof cases
      case 1
      then show ?thesis by simp
    next
      case 2
      with q obtain b where "best_time st Y = Some b" "b \<le> t'" by blast
      with update(2) show ?thesis by (cases "Y = ?X") auto
    qed
  qed
  have s': "\<exists>b. ((best_time st)(?X \<mapsto> ?n)) start = Some b \<and> b \<le> ed"
  proof (cases "start = ?X")
    case True
    with update(2) s show ?thesis by auto
  next
    case False
    with s show ?thesis by simp
  qed
  have lm': "links_mono ((prev st)(?X \<mapsto> fl)) ((best_time st)(?X \<mapsto> ?n))"
    by (rule relabel_links_mono[OF lm oa update(2)])
  have bp': "\<forall>Y b. ((best_time st)(?X \<mapsto> ?n)) Y = Some b
      \<longrightarrow> (\<exists>p. back_path ((prev st)(?X \<mapsto> fl)) start Y p)"
    by (rule relabel_back_paths[OF lm bp oa order_refl update(2)])
  have a': "\<exists>ba'. ((best_time st)(?X \<mapsto> ?n)) a = Some ba' \<and> ba' \<le> t"
  proof (cases "a = ?X")
    case True
    with update(2) a show ?thesis by auto
  next
    case False
    with a show ?thesis by simp
  qed
  from q' s' lm' bp' a' show ?thesis
    unfolding update(1) earliest_inv_def by simp
qed

lemma earliest_loop_inv:
  assumes run: "earliest_loop graph start dst ed (earliest_init start ed) = Some st"
    and g: "keyed_by_origin graph" "arrive_after_depart graph"
  shows "links_mono (prev st) (best_time st)
    \<and> (\<forall>Y b. best_time st Y = Some b \<longrightarrow> (\<exists>p. back_path (prev st) start Y p))"
proof (rule earliest_loop_rule[OF run, where I = "earliest_inv start ed"])
  have "\<exists>p. back_path Map.empty start start p" by (blast intro: back_path.stop)
  then show "earliest_inv start ed (earliest_init start ed)"
    by (simp add: earliest_inv_def earliest_init_def links_mono_def)
next
  fix st :: estate and t a q
  assume inv: "earliest_inv start ed st" and ne: "pq st \<noteq> []"
    and pop: "heappop (pq st) = ((t, a), q)"
  from heappop_props(1,3)[OF ne pop]
  have m: "(t, a) \<in> set (pq st)" and sub: "set q \<subseteq> set (pq st)" .
  from inv have qs: "\<forall>(t, Y) \<in> set (pq st). \<exists>b. best_time st Y = Some b \<and> b \<le> t"
    by (simp add: earliest_inv_def)
  from qs sub have "\<forall>(t, Y) \<in> set q. \<exists>b. best_time st Y = Some b \<and> b \<le> t"
    by blast
  with inv have inv': "earliest_inv start ed (st\<lparr>pq := q\<rparr>)"
    by (simp add: earliest_inv_def)
  from qs m have "\<exists>ba. best_time st a = Some ba \<and> ba \<le> t" by blast
  with inv' have "earliest_inv start ed (st\<lparr>pq := q\<rparr>)
      \<and> (\<exists>ba. best_time (st\<lparr>pq := q\<rparr>) a = Some ba \<and> ba \<le> t)" by simp
  then have "earliest_inv start ed (fold (relax_earliest start ed t a) (graph_get graph a)
        (st\<lparr>pq := q\<rparr>))
      \<and> (\<exists>ba. best_time (fold (relax_earliest start ed t a) (graph_get graph a)
        (st\<lparr>pq := q\<rparr>)) a = Some ba \<and> ba \<le> t)"
  proof (rule fold_invariant)
    fix fl and s :: estate
    assume fl: "fl \<in> set (graph_get graph a)"
      and "earliest_inv start ed s \<and> (\<exists>ba. best_time s a = Some ba \<and> ba \<le> t)"
    then obtain ba where s: "earliest_inv start ed s" "best_time s a = Some ba" "ba \<le> t"
      by blast
    show "earliest_inv start ed (relax_earliest start ed t a fl s)
      \<and> (\<exists>ba. best_time (relax_earliest start ed t a fl s) a = Some ba \<and> ba \<le> t)"
      by (rule relax_earliest_inv[OF s graph_get_origin[OF g(1) fl] graph_get_times[OF g(2) fl]])
  qed
  then show "earliest_inv start ed (fold (relax_earliest start ed t a) (graph_get graph a)
        (st\<lparr>pq := q\<rparr>))" ..
next
  fix st :: estate
  assume "earliest_inv start ed st"
  then show "links_mono (prev st) (best_time st)
    \<and> (\<forall>Y b. best_time st Y = Some b \<longrightarrow> (\<exists>p. back_path (prev st) start Y p))"
    by (simp add: earliest_inv_def)
next
  fix st :: estate and t q
  assume "earliest_inv start ed st"
  then show "links_mono (prev (st\<lparr>pq := q\<rparr>)) (best_time (st\<lparr>pq := q\<rparr>))
    \<and> (\<forall>Y b. best_time (st\<lparr>pq := q\<rparr>) Y = Some b
        \<longrightarrow> (\<exists>p. back_path (prev (st\<lparr>pq := q\<rparr>)) start Y p))"
    by (simp add: earliest_inv_def)
qed

lemma earliest_loop_back_path:
  assumes "earliest_loop graph start dst ed (earliest_init start ed) = Some st"
    and "keyed_by_origin graph" "arrive_after_depart graph"
    and "prev st Z \<noteq> None"
  shows "\<exists>p. back_path (prev st) start Z p"
proof -
  from earliest_loop_inv[OF assms(1-3)] assms(4) show ?thesis
    unfolding links_mono_def by blast
qed

subsection \<open>Both searches return\<close>

lemma find_earliest_returns:
  assumes "keyed_by_origin graph" "arrive_after_depart graph"
  shows "\<exists>r. find_earliest_itinerary graph start dst ed = Some r"
proof -
  from earliest_loop_terminates obtain st where
    st: "earliest_loop graph start dst ed (earliest_init start ed) = Some st" by blast
  show ?thesis
  proof (cases "prev st dst = None")
    case True
    show ?thesis
    proof (cases "start = dst")
      case True
      with st show ?thesis
        by (auto simp: find_earliest_itinerary_def earliest_walk.simps)
    next
      case False
      with True show ?thesis by (simp add: find_earliest_itinerary_def st)
    qed
  next
    case False
    from earliest_loop_back_path[OF st assms False] obtain p
      where "back_path (prev st) start dst p" ..
    from earliest_walk_complete[OF this, of "[]"] False show ?thesis
      by (simp add: find_earliest_itinerary_def st)
  qed
qed

lemma find_cheapest_returns:
  assumes "keyed_by_origin graph" "nonneg_prices graph cabin"
  shows "\<exists>r. find_cheapest_itinerary graph start dst ed cabin = Some (Inr r)"
proof -
  have "\<exists>st. cheapest_loop graph start dst ed cabin (cheapest_init start ed) = Some st"
    by (rule cheapest_loop_terminates[OF assms(2)]) (simp add: cheapest_init_def)
  then obtain st where
    st: "cheapest_loop graph start dst ed cabin (cheapest_init start ed) = Some st" ..
  show ?thesis
  proof (cases "prev_c st dst = None")
    case True
    then show ?thesis by (simp add: find_cheapest_itinerary_def st)
  next
    case False
    from cheapest_loop_back_path[OF st assms False] obtain p
      where "back_path (prev_c st) start dst p" ..
    from cheapest_walk_complete[OF this, of "[]"] False show ?thesis
      by (simp add: find_cheapest_itinerary_def st)
  qed
qed

text \<open>
  C10 (as amended). For every finite graph in which each flight is listed under its
  origin, arrives after it departs and has a non-negative price for the cabin, and for
  all arguments, \<open>find_earliest_itinerary\<close> and \<open>find_cheapest_itinerary\<close> terminate: the
  priority-queue loop and the backward reconstruction both complete.
\<close>

theorem searches_terminate:
  assumes "keyed_by_origin graph" "arrive_after_depart graph" "nonneg_prices graph cabin"
  shows "(\<exists>r. find_earliest_itinerary graph start dst ed = Some r)
    \<and> (\<exists>r. find_cheapest_itinerary graph start dst ed cabin = Some r)"
  using find_earliest_returns[OF assms(1,2), of start dst ed]
    find_cheapest_returns[OF assms(1,3), of start dst ed]
  by blast

theorem searches_terminate_witness:
  "keyed_by_origin (build_graph [flight ''A'' ''B'' ''F1'' 480 540 100 200 300,
                                 flight ''B'' ''A'' ''F2'' 600 660 50 80 120])
   \<and> arrive_after_depart (build_graph [flight ''A'' ''B'' ''F1'' 480 540 100 200 300,
                                       flight ''B'' ''A'' ''F2'' 600 660 50 80 120])
   \<and> nonneg_prices (build_graph [flight ''A'' ''B'' ''F1'' 480 540 100 200 300,
                                 flight ''B'' ''A'' ''F2'' 600 660 50 80 120]) Business
   \<and> (\<exists>r. find_earliest_itinerary
            (build_graph [flight ''A'' ''B'' ''F1'' 480 540 100 200 300,
                          flight ''B'' ''A'' ''F2'' 600 660 50 80 120]) ''A'' ''Z'' 420 = Some r)
   \<and> (\<exists>r. find_cheapest_itinerary
            (build_graph [flight ''A'' ''B'' ''F1'' 480 540 100 200 300,
                          flight ''B'' ''A'' ''F2'' 600 660 50 80 120]) ''A'' ''Z'' 420 Business
          = Some r)"
proof -
  let ?fs = "[flight ''A'' ''B'' ''F1'' 480 540 100 200 300,
              flight ''B'' ''A'' ''F2'' 600 660 50 80 120]"
  have k: "keyed_by_origin (build_graph ?fs)" by (rule build_graph_keyed)
  have v: "arrive_after_depart (build_graph ?fs)"
    by (rule build_graph_times) (simp add: flight_def)
  have n: "nonneg_prices (build_graph ?fs) Business"
    by (rule build_graph_prices) (simp add: flight_def price_for_def)
  from searches_terminate[OF k v n, of "''A''" "''Z''" 420] k v n show ?thesis by blast
qed

subsection \<open>A cycle of negative prices\<close>

lemma round_trip_get:
  "graph_get round_trip ''A'' = [flight ''A'' ''B'' ''N1'' 100 200 (-1) (-1) (-1)]"
  "graph_get round_trip ''B'' = [flight ''B'' ''A'' ''N2'' 300 400 (-1) (-1) (-1)]"
  by (simp_all add: round_trip_def build_graph_def graph_add_def graph_get_def flight_def)

lemma flight_sel:
  "origin (flight orig d num dep arr e b f) = orig"
  "dest (flight orig d num dep arr e b f) = d"
  "depart (flight orig d num dep arr e b f) = dep"
  "arrive (flight orig d num dep arr e b f) = arr"
  by (simp_all add: flight_def)

lemma heappop_single: "heappop [x] = (x, [])"
  by (simp add: heappop_def)

lemma circling_step:
  assumes "circling st" "ed \<le> 100"
  shows "\<exists>c t a. heappop (pq_c st) = ((c, t, a), []) \<and> pq_c st \<noteq> [] \<and> a \<noteq> ''Z''
    \<and> circling (fold (relax_cheapest ''A'' ed cabin c t a) (graph_get round_trip a)
         (st\<lparr>pq_c := []\<rparr>))"
proof -
  have p: "price_for (flight orig d num dep arr (-1) (-1) (-1)) cabin = -1" for orig d num dep arr
    by (cases cabin) (simp_all add: price_for_def flight_def)
  from assms(1) consider
    c t where "pq_c st = [(c, t, ''A'')]" "best_cost st ''A'' = Some c" "best_cost st ''B'' = None"
    | c where "pq_c st = [(c, 400, ''A'')]" "best_cost st ''A'' = Some c"
        "best_cost st ''B'' = Some (c + 1)"
    | c where "pq_c st = [(c, 200, ''B'')]" "best_cost st ''B'' = Some c"
        "best_cost st ''A'' = Some (c + 1)"
    unfolding circling_def by blast
  then show ?thesis
  proof cases
    case 1
    have "circling (fold (relax_cheapest ''A'' ed cabin c t ''A'') (graph_get round_trip ''A'')
         (st\<lparr>pq_c := []\<rparr>))"
      using 1 assms(2)
      by (simp add: round_trip_get relax_cheapest_def p heappush_def circling_def Let_def
          flight_sel)
    with 1 show ?thesis by (simp add: heappop_single)
  next
    case 2
    have "circling (fold (relax_cheapest ''A'' ed cabin c 400 ''A'') (graph_get round_trip ''A'')
         (st\<lparr>pq_c := []\<rparr>))"
      using 2 assms(2)
      by (simp add: round_trip_get relax_cheapest_def p heappush_def circling_def Let_def
          flight_sel)
    with 2 show ?thesis by (simp add: heappop_single)
  next
    case 3
    have "circling (fold (relax_cheapest ''A'' ed cabin c 200 ''B'') (graph_get round_trip ''B'')
         (st\<lparr>pq_c := []\<rparr>))"
      using 3
      by (simp add: round_trip_get relax_cheapest_def p heappush_def circling_def Let_def
          flight_sel MIN_LAYOVER_MINUTES_def)
    with 3 show ?thesis by (simp add: heappop_single)
  qed
qed

lemma circling_diverges:
  assumes "circling st0" "ed0 \<le> 100"
  shows "cheapest_loop round_trip ''A'' ''Z'' ed0 cabin0 st0 = None"
proof (rule ccontr)
  assume "cheapest_loop round_trip ''A'' ''Z'' ed0 cabin0 st0 \<noteq> None"
  then obtain y where run: "cheapest_loop round_trip ''A'' ''Z'' ed0 cabin0 st0 = Some y"
    by blast
  have "\<not> (round_trip = round_trip \<and> ''A'' = ''A'' \<and> ''Z'' = ''Z'' \<and> ed0 \<le> 100 \<and> circling st0)"
  proof (rule cheapest_loop.raw_induct
      [where P = "\<lambda>g s d e cb st y.
          \<not> (g = round_trip \<and> s = ''A'' \<and> d = ''Z'' \<and> e \<le> 100 \<and> circling st)",
        OF _ run])
    fix f g s d e cb st y
    assume IH: "\<And>g s d e cb st y. f g s d e cb st = Some y
        \<Longrightarrow> \<not> (g = round_trip \<and> s = ''A'' \<and> d = ''Z'' \<and> e \<le> 100 \<and> circling st)"
      and eq: "(if pq_c st = [] then Some st
          else case heappop (pq_c st) of
            ((cost, time, airport), q) \<Rightarrow>
              if airport = d then Some (st\<lparr>pq_c := q\<rparr>)
              else f g s d e cb (fold (relax_cheapest s e cb cost time airport)
                     (graph_get g airport) (st\<lparr>pq_c := q\<rparr>))) = Some y"
    show "\<not> (g = round_trip \<and> s = ''A'' \<and> d = ''Z'' \<and> e \<le> 100 \<and> circling st)"
    proof
      assume a: "g = round_trip \<and> s = ''A'' \<and> d = ''Z'' \<and> e \<le> 100 \<and> circling st"
      then have "circling st" "e \<le> 100" by simp_all
      from circling_step[OF this, of cb] obtain c t ap where
        pop: "heappop (pq_c st) = ((c, t, ap), [])" "pq_c st \<noteq> []" "ap \<noteq> ''Z''"
        and after: "circling (fold (relax_cheapest ''A'' e cb c t ap) (graph_get round_trip ap)
           (st\<lparr>pq_c := []\<rparr>))" by blast
      from eq pop a have "f round_trip ''A'' ''Z'' e cb
          (fold (relax_cheapest ''A'' e cb c t ap) (graph_get round_trip ap)
             (st\<lparr>pq_c := []\<rparr>)) = Some y" by simp
      from IH[OF this] after a show False by simp
    qed
  qed
  with assms show False by simp
qed

lemma round_trip_diverges:
  assumes "ed \<le> 100"
  shows "find_cheapest_itinerary round_trip ''A'' ''Z'' ed cabin = None"
proof -
  have "circling (cheapest_init ''A'' ed)"
    by (simp add: circling_def cheapest_init_def)
  from circling_diverges[OF this assms] show ?thesis
    by (simp add: find_cheapest_itinerary_def)
qed

subsection \<open>Only airports with a feasible path are ever labelled\<close>

lemma connects_snoc:
  "connects graph cur thr (p @ [f]) \<longleftrightarrow>
     connects graph cur thr p
     \<and> f \<in> set (graph_get graph (if p = [] then cur else dest (last p)))
     \<and> origin f = (if p = [] then cur else dest (last p))
     \<and> (if p = [] then thr else arrive (last p) + MIN_LAYOVER_MINUTES) \<le> depart f"
  by (induction p arbitrary: cur thr) auto

lemma feasible_first:
  assumes "f \<in> set (graph_get graph start)" "origin f = start" "ed \<le> depart f"
  shows "feasible_path graph start (dest f) ed [f]"
  using assms by (simp add: feasible_path_def)

lemma feasible_extend:
  assumes "feasible_path graph start Y ed p" "f \<in> set (graph_get graph Y)" "origin f = Y"
    and "arrive (last p) + MIN_LAYOVER_MINUTES \<le> depart f"
  shows "feasible_path graph start (dest f) ed (p @ [f])"
  using assms by (simp add: feasible_path_def connects_snoc)

lemma reached_next:
  assumes r: "reached graph start ed t a"
    and fl: "fl \<in> set (graph_get graph a)" "origin fl = a"
    and dep: "(if a = start then ed else t + MIN_LAYOVER_MINUTES) \<le> depart fl"
  shows "\<exists>p. feasible_path graph start (dest fl) ed p \<and> arrive (last p) = arrive fl"
proof (cases "a = start")
  case True
  with fl dep have "feasible_path graph start (dest fl) ed [fl]"
    by (intro feasible_first) auto
  then show ?thesis by (intro exI[of _ "[fl]"]) simp
next
  case False
  with r obtain p where p: "feasible_path graph start a ed p" "arrive (last p) = t"
    by (auto simp: reached_def)
  with fl dep False have "feasible_path graph start (dest fl) ed (p @ [fl])"
    by (intro feasible_extend) auto
  then show ?thesis by (intro exI[of _ "p @ [fl]"]) simp
qed

lemma relax_earliest_reach:
  assumes "earliest_reach graph start ed st" "reached graph start ed t a"
    and "fl \<in> set (graph_get graph a)" "origin fl = a"
  shows "earliest_reach graph start ed (relax_earliest start ed t a fl st)"
proof (cases rule: relax_earliest_cases[of start ed t a fl st])
  case same
  with assms(1) show ?thesis by simp
next
  case update
  from reached_next[OF assms(2-4) update(3)] obtain p where
    p: "feasible_path graph start (dest fl) ed p" "arrive (last p) = arrive fl" by blast
  then have "reached graph start ed (arrive fl) (dest fl)" by (auto simp: reached_def)
  with assms(1) p(1) show ?thesis
    unfolding update(1) earliest_reach_def by auto
qed

lemma relax_cheapest_reach:
  assumes "cheapest_reach graph start ed st" "reached graph start ed t a"
    and "fl \<in> set (graph_get graph a)" "origin fl = a"
  shows "cheapest_reach graph start ed (relax_cheapest start ed cabin c t a fl st)"
proof (cases rule: relax_cheapest_cases[of start ed cabin c t a fl st])
  case same
  with assms(1) show ?thesis by simp
next
  case update
  from reached_next[OF assms(2-4) update(3)] obtain p where
    p: "feasible_path graph start (dest fl) ed p" "arrive (last p) = arrive fl" by blast
  then have "reached graph start ed (arrive fl) (dest fl)" by (auto simp: reached_def)
  with assms(1) p(1) show ?thesis
    unfolding update(1) cheapest_reach_def by auto
qed

lemma earliest_loop_reach:
  assumes run: "earliest_loop graph start dst ed (earliest_init start ed) = Some st"
    and g: "keyed_by_origin graph"
  shows "\<forall>Z f. prev st Z = Some f \<longrightarrow> (\<exists>p. feasible_path graph start Z ed p)"
proof (rule earliest_loop_rule[OF run, where I = "earliest_reach graph start ed"])
  show "earliest_reach graph start ed (earliest_init start ed)"
    by (simp add: earliest_reach_def earliest_init_def reached_def)
next
  fix st :: estate and t a q
  assume inv: "earliest_reach graph start ed st" and ne: "pq st \<noteq> []"
    and pop: "heappop (pq st) = ((t, a), q)"
  from heappop_props(1,3)[OF ne pop]
  have m: "(t, a) \<in> set (pq st)" and sub: "set q \<subseteq> set (pq st)" .
  from inv have qs: "\<forall>(t, Y) \<in> set (pq st). reached graph start ed t Y"
    by (simp add: earliest_reach_def)
  from qs m have r: "reached graph start ed t a" by blast
  from qs sub have "\<forall>(t, Y) \<in> set q. reached graph start ed t Y" by blast
  with inv have "earliest_reach graph start ed (st\<lparr>pq := q\<rparr>)"
    by (simp add: earliest_reach_def)
  then show "earliest_reach graph start ed
      (fold (relax_earliest start ed t a) (graph_get graph a) (st\<lparr>pq := q\<rparr>))"
  proof (rule fold_invariant)
    fix fl and s :: estate
    assume fl: "fl \<in> set (graph_get graph a)" and s: "earliest_reach graph start ed s"
    show "earliest_reach graph start ed (relax_earliest start ed t a fl s)"
      by (rule relax_earliest_reach[OF s r fl graph_get_origin[OF g fl]])
  qed
qed (simp_all add: earliest_reach_def)

lemma cheapest_loop_reach:
  assumes run: "cheapest_loop graph start dst ed cabin (cheapest_init start ed) = Some st"
    and g: "keyed_by_origin graph"
  shows "\<forall>Z f. prev_c st Z = Some f \<longrightarrow> (\<exists>p. feasible_path graph start Z ed p)"
proof (rule cheapest_loop_rule[OF run, where I = "cheapest_reach graph start ed"])
  show "cheapest_reach graph start ed (cheapest_init start ed)"
    by (simp add: cheapest_reach_def cheapest_init_def reached_def)
next
  fix st :: cstate and c t a q
  assume inv: "cheapest_reach graph start ed st" and ne: "pq_c st \<noteq> []"
    and pop: "heappop (pq_c st) = ((c, t, a), q)"
  from heappop_props(1,3)[OF ne pop]
  have m: "(c, t, a) \<in> set (pq_c st)" and sub: "set q \<subseteq> set (pq_c st)" .
  from inv have qs: "\<forall>(c, t, Y) \<in> set (pq_c st). reached graph start ed t Y"
    by (simp add: cheapest_reach_def)
  from qs m have r: "reached graph start ed t a" by blast
  from qs sub have "\<forall>(c, t, Y) \<in> set q. reached graph start ed t Y" by blast
  with inv have "cheapest_reach graph start ed (st\<lparr>pq_c := q\<rparr>)"
    by (simp add: cheapest_reach_def)
  then show "cheapest_reach graph start ed
      (fold (relax_cheapest start ed cabin c t a) (graph_get graph a) (st\<lparr>pq_c := q\<rparr>))"
  proof (rule fold_invariant)
    fix fl and s :: cstate
    assume fl: "fl \<in> set (graph_get graph a)" and s: "cheapest_reach graph start ed s"
    show "cheapest_reach graph start ed (relax_cheapest start ed cabin c t a fl s)"
      by (rule relax_cheapest_reach[OF s r fl graph_get_origin[OF g fl]])
  qed
qed (simp_all add: cheapest_reach_def)

lemma find_earliest_no_path:
  assumes "keyed_by_origin graph" "start \<noteq> dst" "\<not> (\<exists>p. feasible_path graph start dst ed p)"
  shows "find_earliest_itinerary graph start dst ed = Some None"
proof -
  from earliest_loop_terminates obtain st where
    st: "earliest_loop graph start dst ed (earliest_init start ed) = Some st" by blast
  from earliest_loop_reach[OF st assms(1)] assms(3) have "prev st dst = None"
    by (cases "prev st dst") auto
  with assms(2) show ?thesis by (simp add: find_earliest_itinerary_def st)
qed

lemma find_cheapest_no_path:
  assumes "keyed_by_origin graph" "nonneg_prices graph cabin"
    and "\<not> (\<exists>p. feasible_path graph start dst ed p)"
  shows "find_cheapest_itinerary graph start dst ed cabin = Some (Inr None)"
proof -
  have "\<exists>st. cheapest_loop graph start dst ed cabin (cheapest_init start ed) = Some st"
    by (rule cheapest_loop_terminates[OF assms(2)]) (simp add: cheapest_init_def)
  then obtain st where
    st: "cheapest_loop graph start dst ed cabin (cheapest_init start ed) = Some st" ..
  from cheapest_loop_reach[OF st assms(1)] assms(3) have "prev_c st dst = None"
    by (cases "prev_c st dst") auto
  then show ?thesis by (simp add: find_cheapest_itinerary_def st)
qed

lemma connects_flights:
  "connects graph cur thr p \<Longrightarrow> set p \<subseteq> set (all_flights graph)"
  by (induction p arbitrary: cur thr) (auto dest: graph_get_all_flights)

lemma feasible_path_dest:
  assumes "feasible_path graph start dst ed p"
  shows "dst \<in> dest ` set (all_flights graph)"
proof -
  from assms have "p \<noteq> []" "connects graph start ed p" "dest (last p) = dst"
    by (simp_all add: feasible_path_def)
  with connects_flights[of graph start ed p] last_in_set[of p] show ?thesis by blast
qed

text \<open>
  C5 (as amended). For every graph that lists each flight under its origin and whose
  prices for the cabin are non-negative, and for start \<open>\<noteq>\<close> destination: if no feasible
  chain of flights connects start to destination (also when the destination is not
  in the graph at all), both searches return \<^verbatim>\<open>None\<close>, without raising.
\<close>

theorem no_path_no_itinerary:
  assumes "keyed_by_origin graph" "nonneg_prices graph cabin" "start \<noteq> dst"
    and "\<not> (\<exists>p. feasible_path graph start dst ed p)"
  shows "find_earliest_itinerary graph start dst ed = Some None
    \<and> find_cheapest_itinerary graph start dst ed cabin = Some (Inr None)"
  using find_earliest_no_path[OF assms(1,3,4)] find_cheapest_no_path[OF assms(1,2,4)]
  by simp

text \<open>
  The scenario of the specification: the connection out of B leaves at 09:30, before
  the arrival at B plus the layover (10:00).
\<close>

theorem no_path_no_itinerary_witness:
  "keyed_by_origin (build_graph [flight ''A'' ''B'' ''F1'' 480 540 100 200 300,
                                 flight ''B'' ''C'' ''F2'' 570 630 50 80 120])
   \<and> nonneg_prices (build_graph [flight ''A'' ''B'' ''F1'' 480 540 100 200 300,
                                 flight ''B'' ''C'' ''F2'' 570 630 50 80 120]) Economy
   \<and> ''A'' \<noteq> ''C''
   \<and> \<not> (\<exists>p. feasible_path (build_graph [flight ''A'' ''B'' ''F1'' 480 540 100 200 300,
                                         flight ''B'' ''C'' ''F2'' 570 630 50 80 120])
             ''A'' ''C'' 420 p)
   \<and> find_earliest_itinerary (build_graph [flight ''A'' ''B'' ''F1'' 480 540 100 200 300,
                                           flight ''B'' ''C'' ''F2'' 570 630 50 80 120])
       ''A'' ''C'' 420 = Some None
   \<and> find_cheapest_itinerary (build_graph [flight ''A'' ''B'' ''F1'' 480 540 100 200 300,
                                           flight ''B'' ''C'' ''F2'' 570 630 50 80 120])
       ''A'' ''C'' 420 Economy = Some (Inr None)"
proof -
  let ?F1 = "flight ''A'' ''B'' ''F1'' 480 540 100 200 300"
  let ?F2 = "flight ''B'' ''C'' ''F2'' 570 630 50 80 120"
  let ?g = "build_graph [?F1, ?F2]"
  have k: "keyed_by_origin ?g" by (rule build_graph_keyed)
  have n: "nonneg_prices ?g Economy"
    by (rule build_graph_prices) (simp add: flight_def price_for_def)
  have ne: "''A'' \<noteq> ''C''" by simp
  have all: "all_flights ?g = [?F1, ?F2]"
    by (simp add: all_flights_def build_graph_def graph_add_def graph_get_def flight_def)
  have none: "\<not> (\<exists>p. feasible_path ?g ''A'' ''C'' 420 p)"
  proof
    assume "\<exists>p. feasible_path ?g ''A'' ''C'' 420 p"
    then obtain p where p: "p \<noteq> []" "connects ?g ''A'' 420 p" "dest (last p) = ''C''"
      by (auto simp: feasible_path_def)
    from p(1) obtain q f where pq: "p = q @ [f]" by (cases p rule: rev_cases) auto
    from connects_flights[OF p(2)] all pq have "f = ?F1 \<or> f = ?F2" by auto
    with p(3) pq have f: "f = ?F2" by (auto simp: flight_sel)
    have sel: "origin f = ''B''" "depart f = 570" using f by (simp_all add: flight_sel)
    from p(2) have "connects ?g ''A'' 420 (q @ [f])" unfolding pq .
    then have c: "connects ?g ''A'' 420 q"
      "origin f = (if q = [] then ''A'' else dest (last q))"
      "(if q = [] then 420 else arrive (last q) + MIN_LAYOVER_MINUTES) \<le> depart f"
      unfolding connects_snoc by blast+
    have q: "connects ?g ''A'' 420 q"
      "(if q = [] then ''A'' else dest (last q)) = ''B''"
      "(if q = [] then 420 else arrive (last q) + MIN_LAYOVER_MINUTES) \<le> 570"
      using c unfolding sel by simp_all
    from q(2) have qne: "q \<noteq> []" by (auto split: if_splits)
    then obtain r h where qr: "q = r @ [h]" by (cases q rule: rev_cases) auto
    from connects_flights[OF q(1)] all qr have "h = ?F1 \<or> h = ?F2" by auto
    moreover from q(2) qr have "dest h = ''B''" by simp
    ultimately have "h = ?F1" by (auto simp: flight_sel)
    with q(3) qr show False by (simp add: flight_sel MIN_LAYOVER_MINUTES_def)
  qed
  from no_path_no_itinerary[OF k n ne none] k n ne none show ?thesis by blast
qed

text \<open>
  C5 as stated fails on the cycle of negative prices: no path leads from A to Z, and
  the cheapest-fare search does not return.
\<close>

theorem no_path_cheapest_counterexample:
  "keyed_by_origin round_trip \<and> ''A'' \<noteq> ''Z''
   \<and> \<not> (\<exists>p. feasible_path round_trip ''A'' ''Z'' 60 p)
   \<and> find_cheapest_itinerary round_trip ''A'' ''Z'' 60 First \<noteq> Some (Inr None)"
proof -
  have k: "keyed_by_origin round_trip"
    unfolding round_trip_def by (rule build_graph_keyed)
  have all: "all_flights round_trip = [flight ''A'' ''B'' ''N1'' 100 200 (-1) (-1) (-1),
                                       flight ''B'' ''A'' ''N2'' 300 400 (-1) (-1) (-1)]"
    by (simp add: all_flights_def round_trip_def build_graph_def graph_add_def graph_get_def
        flight_def)
  have none: "\<not> (\<exists>p. feasible_path round_trip ''A'' ''Z'' 60 p)"
  proof
    assume "\<exists>p. feasible_path round_trip ''A'' ''Z'' 60 p"
    then obtain p where "feasible_path round_trip ''A'' ''Z'' 60 p" ..
    from feasible_path_dest[OF this] show False by (simp add: all flight_sel)
  qed
  have "find_cheapest_itinerary round_trip ''A'' ''Z'' 60 First = None"
    by (rule round_trip_diverges) simp
  with k none show ?thesis by simp
qed

text \<open>
  C10 as stated fails on the same graph, which is finite, lists each flight under its
  origin and has every flight arrive after it departs.
\<close>

theorem cheapest_diverges_counterexample:
  "keyed_by_origin round_trip \<and> arrive_after_depart round_trip
   \<and> find_cheapest_itinerary round_trip ''A'' ''Z'' 0 Economy = None"
proof -
  have k: "keyed_by_origin round_trip"
    unfolding round_trip_def by (rule build_graph_keyed)
  have v: "arrive_after_depart round_trip"
    unfolding round_trip_def by (rule build_graph_times) (simp add: flight_sel)
  have "find_cheapest_itinerary round_trip ''A'' ''Z'' 0 Economy = None"
    by (rule round_trip_diverges) simp
  with k v show ?thesis by simp
qed

subsection \<open>The earliest-arrival search is optimal\<close>

lemma covered_update:
  assumes "covered best f" "\<forall>x. best X = Some x \<longrightarrow> n < x"
  shows "covered (best(X \<mapsto> n)) f"
  using assms unfolding covered_def by (cases "dest f = X") auto

lemma relaxed_update:
  assumes "relaxed graph start ed best Y b" "\<forall>x. best X = Some x \<longrightarrow> n < x"
  shows "relaxed graph start ed (best(X \<mapsto> n)) Y b"
  using assms unfolding relaxed_def by (blast intro: covered_update)

lemma relax_earliest_unfold':
  "(relax_earliest start ed t a fl st = st
     \<and> ((if a = start then ed else t + MIN_LAYOVER_MINUTES) \<le> depart fl
          \<longrightarrow> covered (best_time st) fl))
   \<or> (relax_earliest start ed t a fl st =
        st\<lparr>best_time := (best_time st)(dest fl \<mapsto> arrive fl),
            prev := (prev st)(dest fl \<mapsto> fl),
            pq := (arrive fl, dest fl) # pq st\<rparr>
      \<and> (\<forall>x. best_time st (dest fl) = Some x \<longrightarrow> arrive fl < x))"
  by (auto simp add: relax_earliest_def Let_def heappush_def covered_def split: option.splits)

lemma relax_earliest_opt_mid:
  assumes "opt_mid graph start ed t a seen st"
  shows "opt_mid graph start ed t a (seen @ [fl]) (relax_earliest start ed t a fl st)"
proof -
  let ?thr = "if a = start then ed else t + MIN_LAYOVER_MINUTES"
  from assms have
    q: "\<forall>(t', Y) \<in> set (pq st). \<exists>b. best_time st Y = Some b \<and> b \<le> t'"
    and s: "\<exists>b. best_time st start = Some b \<and> b \<le> ed"
    and pv: "\<forall>Z f. prev st Z = Some f \<longrightarrow> best_time st Z = Some (arrive f)"
    and rl: "\<forall>X b. best_time st X = Some b \<longrightarrow>
        (b, X) \<in> set (pq st) \<or> relaxed graph start ed (best_time st) X b
        \<or> (X = a \<and> b = t \<and> (\<forall>f \<in> set seen. ?thr \<le> depart f \<longrightarrow> covered (best_time st) f))"
    unfolding opt_mid_def by blast+
  from relax_earliest_unfold'[of start ed t a fl st] show ?thesis
  proof (elim disjE conjE)
    assume same: "relax_earliest start ed t a fl st = st"
      and cov: "?thr \<le> depart fl \<longrightarrow> covered (best_time st) fl"
    have "\<forall>X b. best_time st X = Some b \<longrightarrow>
        (b, X) \<in> set (pq st) \<or> relaxed graph start ed (best_time st) X b
        \<or> (X = a \<and> b = t \<and>
            (\<forall>f \<in> set (seen @ [fl]). ?thr \<le> depart f \<longrightarrow> covered (best_time st) f))"
      using rl cov by auto
    with q s pv show ?thesis unfolding same opt_mid_def by blast
  next
    let ?n = "arrive fl" and ?D = "dest fl"
    let ?best' = "(best_time st)(?D \<mapsto> ?n)"
    assume upd: "relax_earliest start ed t a fl st =
        st\<lparr>best_time := ?best', prev := (prev st)(?D \<mapsto> fl), pq := (?n, ?D) # pq st\<rparr>"
      and imp: "\<forall>x. best_time st ?D = Some x \<longrightarrow> ?n < x"
    have q': "\<forall>(t', Y) \<in> set ((?n, ?D) # pq st). \<exists>b. ?best' Y = Some b \<and> b \<le> t'"
    proof (clarify)
      fix t' Y
      assume "(t', Y) \<in> set ((?n, ?D) # pq st)"
      then consider "t' = ?n" "Y = ?D" | "(t', Y) \<in> set (pq st)" by auto
      then show "\<exists>b. ?best' Y = Some b \<and> b \<le> t'"
      proof cases
        case 1
        then show ?thesis by simp
      next
        case 2
        with q obtain b where "best_time st Y = Some b" "b \<le> t'" by blast
        with imp show ?thesis by (cases "Y = ?D") auto
      qed
    qed
    have s': "\<exists>b. ?best' start = Some b \<and> b \<le> ed"
    proof (cases "start = ?D")
      case True
      with imp s show ?thesis by auto
    next
      case False
      with s show ?thesis by simp
    qed
    have pv': "\<forall>Z f. ((prev st)(?D \<mapsto> fl)) Z = Some f \<longrightarrow> ?best' Z = Some (arrive f)"
      using pv by auto
    have rl': "\<forall>X b. ?best' X = Some b \<longrightarrow>
        (b, X) \<in> set ((?n, ?D) # pq st) \<or> relaxed graph start ed ?best' X b
        \<or> (X = a \<and> b = t \<and>
            (\<forall>f \<in> set (seen @ [fl]). ?thr \<le> depart f \<longrightarrow> covered ?best' f))"
    proof (intro allI impI)
      fix X b
      assume X: "?best' X = Some b"
      show "(b, X) \<in> set ((?n, ?D) # pq st) \<or> relaxed graph start ed ?best' X b
        \<or> (X = a \<and> b = t \<and>
            (\<forall>f \<in> set (seen @ [fl]). ?thr \<le> depart f \<longrightarrow> covered ?best' f))"
      proof (cases "X = ?D")
        case True
        with X show ?thesis by simp
      next
        case False
        with X have "best_time st X = Some b" by simp
        with rl consider "(b, X) \<in> set (pq st)"
          | "relaxed graph start ed (best_time st) X b"
          | "X = a" "b = t" "\<forall>f \<in> set seen. ?thr \<le> depart f \<longrightarrow> covered (best_time st) f"
          by blast
        then show ?thesis
        proof cases
          case 1
          then show ?thesis by simp
        next
          case 2
          from relaxed_update[OF this imp] show ?thesis by simp
        next
          case 3
          have "covered ?best' fl" by (simp add: covered_def)
          moreover have "\<forall>f \<in> set seen. ?thr \<le> depart f \<longrightarrow> covered ?best' f"
            using 3(3) imp by (blast intro: covered_update)
          ultimately show ?thesis using 3(1,2) by simp
        qed
      qed
    qed
    from q' s' pv' rl' show ?thesis unfolding upd opt_mid_def by simp
  qed
qed

lemma fold_relax_earliest_opt_mid:
  assumes "opt_mid graph start ed t a seen st"
  shows "opt_mid graph start ed t a (seen @ fs) (fold (relax_earliest start ed t a) fs st)"
  using assms
proof (induction fs arbitrary: seen st)
  case Nil
  then show ?case by simp
next
  case (Cons f fs)
  from Cons.IH[OF relax_earliest_opt_mid[OF Cons.prems, of f]] show ?case by simp
qed

lemma opt_mid_start:
  assumes inv: "opt_inv graph start ed st" and ne: "pq st \<noteq> []"
    and pop: "heappop (pq st) = ((t, a), q)"
  shows "opt_mid graph start ed t a [] (st\<lparr>pq := q\<rparr>)"
proof -
  from heappop_props(3,4)[OF ne pop]
  have sub: "set q \<subseteq> set (pq st)" and sup: "set (pq st) \<subseteq> insert (t, a) (set q)" .
  from inv have
    q: "\<forall>(t', Y) \<in> set (pq st). \<exists>b. best_time st Y = Some b \<and> b \<le> t'"
    and s: "\<exists>b. best_time st start = Some b \<and> b \<le> ed"
    and pv: "\<forall>Z f. prev st Z = Some f \<longrightarrow> best_time st Z = Some (arrive f)"
    and rl: "\<forall>X b. best_time st X = Some b \<longrightarrow>
        (b, X) \<in> set (pq st) \<or> relaxed graph start ed (best_time st) X b"
    unfolding opt_inv_def by blast+
  from q sub have q': "\<forall>(t', Y) \<in> set q. \<exists>b. best_time st Y = Some b \<and> b \<le> t'" by blast
  have rl': "\<forall>X b. best_time st X = Some b \<longrightarrow>
        (b, X) \<in> set q \<or> relaxed graph start ed (best_time st) X b \<or> (X = a \<and> b = t)"
    using rl sup by blast
  from q' s pv rl' show ?thesis unfolding opt_mid_def by simp
qed

lemma opt_mid_end:
  assumes "opt_mid graph start ed t a (graph_get graph a) st"
  shows "opt_inv graph start ed st"
proof -
  have "relaxed graph start ed (best_time st) a t"
    if "\<forall>f \<in> set (graph_get graph a).
          (if a = start then ed else t + MIN_LAYOVER_MINUTES) \<le> depart f
          \<longrightarrow> covered (best_time st) f"
    using that by (simp add: relaxed_def)
  with assms show ?thesis unfolding opt_mid_def opt_inv_def by blast
qed

lemma opt_inv_step:
  assumes "opt_inv graph start ed st" "pq st \<noteq> []" "heappop (pq st) = ((t, a), q)"
  shows "opt_inv graph start ed
    (fold (relax_earliest start ed t a) (graph_get graph a) (st\<lparr>pq := q\<rparr>))"
  using fold_relax_earliest_opt_mid[OF opt_mid_start[OF assms], of "graph_get graph a"]
  by (simp add: opt_mid_end)

lemma connects_arrives_later:
  assumes "connects graph cur thr p" "arrive_after_depart graph" "p \<noteq> []"
  shows "thr < arrive (last p)"
  using assms
proof (induction p arbitrary: cur thr)
  case Nil
  then show ?case by simp
next
  case (Cons f fs)
  from Cons.prems have f: "thr \<le> depart f" "depart f < arrive f"
    by (auto dest: graph_get_times)
  show ?case
  proof (cases "fs = []")
    case True
    with f show ?thesis by simp
  next
    case False
    from Cons.prems have "connects graph (dest f) (arrive f + MIN_LAYOVER_MINUTES) fs" by simp
    from Cons.IH[OF this Cons.prems(2) False] f False show ?thesis
      by (simp add: MIN_LAYOVER_MINUTES_def)
  qed
qed

text \<open>
  While every queue entry is at \<open>T\<close> or later, a feasible path that arrives before \<open>T\<close>
  is matched by the best time of the airport where it ends.
\<close>

lemma path_covered:
  assumes inv: "opt_inv graph start ed st" and v: "arrive_after_depart graph"
    and pend: "\<forall>(t', Y) \<in> set (pq st). T \<le> t'"
  shows "connects graph start ed p \<Longrightarrow> p \<noteq> [] \<Longrightarrow> arrive (last p) < T
    \<Longrightarrow> \<exists>b. best_time st (dest (last p)) = Some b \<and> b \<le> arrive (last p)"
proof (induction p rule: rev_induct)
  case Nil
  then show ?case by simp
next
  case (snoc f q)
  from inv have s: "\<exists>b. best_time st start = Some b \<and> b \<le> ed"
    and rl: "\<forall>X b. best_time st X = Some b \<longrightarrow>
        (b, X) \<in> set (pq st) \<or> relaxed graph start ed (best_time st) X b"
    unfolding opt_inv_def by blast+
  let ?X = "if q = [] then start else dest (last q)"
  from snoc.prems(1) have cq: "connects graph start ed q"
    and f: "f \<in> set (graph_get graph ?X)"
    and dep: "(if q = [] then ed else arrive (last q) + MIN_LAYOVER_MINUTES) \<le> depart f"
    unfolding connects_snoc by blast+
  from graph_get_times[OF v f] have fv: "depart f < arrive f" .
  from snoc.prems(3) have fT: "arrive f < T" by simp
  have "\<exists>b. best_time st ?X = Some b
      \<and> (if ?X = start then ed else b + MIN_LAYOVER_MINUTES) \<le> depart f \<and> b < T"
  proof (cases "q = []")
    case True
    from s obtain b where "best_time st start = Some b" "b \<le> ed" by blast
    with True dep fv fT show ?thesis by auto
  next
    case False
    from connects_arrives_later[OF cq v False] have ed: "ed < arrive (last q)" .
    from False dep fv fT have lt: "arrive (last q) < T"
      by (simp add: MIN_LAYOVER_MINUTES_def)
    from snoc.IH[OF cq False lt] obtain b where
      b: "best_time st (dest (last q)) = Some b" "b \<le> arrive (last q)" by blast
    with False dep ed lt show ?thesis by (auto simp: MIN_LAYOVER_MINUTES_def)
  qed
  then obtain b where b: "best_time st ?X = Some b"
    "(if ?X = start then ed else b + MIN_LAYOVER_MINUTES) \<le> depart f" "b < T" by blast
  from pend b(3) have "(b, ?X) \<notin> set (pq st)" by force
  with rl b(1) have "relaxed graph start ed (best_time st) ?X b" by blast
  with f b(2) have "covered (best_time st) f" unfolding relaxed_def by blast
  then show ?case by (simp add: covered_def)
qed

lemma earliest_loop_optimal:
  assumes run: "earliest_loop graph start dst ed (earliest_init start ed) = Some st"
    and v: "arrive_after_depart graph"
  shows "(\<forall>Z f. prev st Z = Some f \<longrightarrow> best_time st Z = Some (arrive f))
    \<and> (\<forall>p. feasible_path graph start dst ed p
          \<longrightarrow> (\<exists>b. best_time st dst = Some b \<and> b \<le> arrive (last p)))"
proof (rule earliest_loop_rule[OF run, where I = "opt_inv graph start ed"])
  show "opt_inv graph start ed (earliest_init start ed)"
    by (simp add: opt_inv_def earliest_init_def)
next
  fix st :: estate and t a q
  assume "opt_inv graph start ed st" "pq st \<noteq> []" "heappop (pq st) = ((t, a), q)"
  then show "opt_inv graph start ed
      (fold (relax_earliest start ed t a) (graph_get graph a) (st\<lparr>pq := q\<rparr>))"
    by (rule opt_inv_step)
next
  fix st :: estate
  assume inv: "opt_inv graph start ed st" and e: "pq st = []"
  have "\<exists>b. best_time st dst = Some b \<and> b \<le> arrive (last p)"
    if "feasible_path graph start dst ed p" for p
  proof -
    from that have p: "connects graph start ed p" "p \<noteq> []" "dest (last p) = dst"
      by (simp_all add: feasible_path_def)
    from path_covered[OF inv v _ p(1,2), of "arrive (last p) + 1"] e p(3)
    show ?thesis by simp
  qed
  with inv show "(\<forall>Z f. prev st Z = Some f \<longrightarrow> best_time st Z = Some (arrive f))
    \<and> (\<forall>p. feasible_path graph start dst ed p
          \<longrightarrow> (\<exists>b. best_time st dst = Some b \<and> b \<le> arrive (last p)))"
    unfolding opt_inv_def by blast
next
  fix st :: estate and t q
  assume inv: "opt_inv graph start ed st" and ne: "pq st \<noteq> []"
    and pop: "heappop (pq st) = ((t, dst), q)"
  from heappop_props(1,2)[OF ne pop]
  have m: "(t, dst) \<in> set (pq st)" and least: "\<forall>x \<in> set (pq st). (t, dst) \<le> x" .
  from least have pend: "\<forall>(t', Y) \<in> set (pq st). t \<le> t'"
    by (auto simp: less_eq_prod_def)
  from inv m obtain b where b: "best_time st dst = Some b" "b \<le> t"
    unfolding opt_inv_def by blast
  have "\<exists>b. best_time st dst = Some b \<and> b \<le> arrive (last p)"
    if "feasible_path graph start dst ed p" for p
  proof (cases "arrive (last p) < t")
    case True
    from that have p: "connects graph start ed p" "p \<noteq> []" "dest (last p) = dst"
      by (simp_all add: feasible_path_def)
    from path_covered[OF inv v pend p(1,2) True] p(3) show ?thesis by simp
  next
    case False
    with b show ?thesis by auto
  qed
  with inv show "(\<forall>Z f. prev (st\<lparr>pq := q\<rparr>) Z = Some f
        \<longrightarrow> best_time (st\<lparr>pq := q\<rparr>) Z = Some (arrive f))
    \<and> (\<forall>p. feasible_path graph start dst ed p
          \<longrightarrow> (\<exists>b. best_time (st\<lparr>pq := q\<rparr>) dst = Some b \<and> b \<le> arrive (last p)))"
    unfolding opt_inv_def by simp
qed

inductive_cases back_path_ConsE: "back_path prv start cur (f # rest)"

text \<open>
  C3. For every graph (of flights that arrive after they depart, as the loaders
  ensure), start, destination and earliest departure: if \<open>find_earliest_itinerary\<close>
  returns an itinerary, no path from start to destination that respects the layover
  (first flight no earlier than the earliest departure, each later flight at least 60
  minutes after the previous arrival) arrives strictly earlier than the itinerary's
  \<open>arrive_time\<close>.
\<close>

theorem earliest_is_earliest:
  assumes "arrive_after_depart graph"
    and "find_earliest_itinerary graph start dst ed = Some (Some it)"
    and "arrive_time it = Some a"
    and "feasible_path graph start dst ed p"
  shows "\<not> arrive (last p) < a"
proof -
  from assms(2) obtain st where
    st: "earliest_loop graph start dst ed (earliest_init start ed) = Some st"
    and bp: "back_path (prev st) start dst (rev (flights it))"
    by (rule find_earliest_SomeD)
  from assms(3) have ne: "flights it \<noteq> []" and a: "a = arrive (last (flights it))"
    by (auto simp: arrive_time_def split: if_splits)
  from ne obtain fs f where it: "flights it = fs @ [f]"
    by (cases "flights it" rule: rev_cases) auto
  with bp have "back_path (prev st) start dst (f # rev fs)" by simp
  then have pd: "prev st dst = Some f" by (rule back_path_ConsE)
  from earliest_loop_optimal[OF st assms(1)] pd assms(4) obtain b where
    "best_time st dst = Some (arrive f)" "best_time st dst = Some b" "b \<le> arrive (last p)"
    by blast
  with a it show ?thesis by simp
qed

theorem earliest_is_earliest_witness:
  "arrive_after_depart
     (build_graph [flight ''A'' ''B'' ''F1'' 480 540 100 200 300,
                   flight ''B'' ''C'' ''F2'' 600 660 50 80 120,
                   flight ''A'' ''C'' ''F3'' 500 700 10 20 30])
   \<and> find_earliest_itinerary
       (build_graph [flight ''A'' ''B'' ''F1'' 480 540 100 200 300,
                     flight ''B'' ''C'' ''F2'' 600 660 50 80 120,
                     flight ''A'' ''C'' ''F3'' 500 700 10 20 30]) ''A'' ''C'' 420
       = Some (Some \<lparr>flights = [flight ''A'' ''B'' ''F1'' 480 540 100 200 300,
                               flight ''B'' ''C'' ''F2'' 600 660 50 80 120]\<rparr>)
   \<and> arrive_time \<lparr>flights = [flight ''A'' ''B'' ''F1'' 480 540 100 200 300,
                             flight ''B'' ''C'' ''F2'' 600 660 50 80 120]\<rparr> = Some 660
   \<and> feasible_path
       (build_graph [flight ''A'' ''B'' ''F1'' 480 540 100 200 300,
                     flight ''B'' ''C'' ''F2'' 600 660 50 80 120,
                     flight ''A'' ''C'' ''F3'' 500 700 10 20 30]) ''A'' ''C'' 420
       [flight ''A'' ''C'' ''F3'' 500 700 10 20 30]
   \<and> \<not> arrive (last [flight ''A'' ''C'' ''F3'' 500 700 10 20 30]) < 660"
proof -
  let ?fs = "[flight ''A'' ''B'' ''F1'' 480 540 100 200 300,
              flight ''B'' ''C'' ''F2'' 600 660 50 80 120,
              flight ''A'' ''C'' ''F3'' 500 700 10 20 30]"
  let ?it = "\<lparr>flights = [flight ''A'' ''B'' ''F1'' 480 540 100 200 300,
                         flight ''B'' ''C'' ''F2'' 600 660 50 80 120]\<rparr>"
  have v: "arrive_after_depart (build_graph ?fs)"
    by (rule build_graph_times) (simp add: flight_def)
  have run: "find_earliest_itinerary (build_graph ?fs) ''A'' ''C'' 420 = Some (Some ?it)"
    by code_simp
  have a: "arrive_time ?it = Some 660"
    by (simp add: arrive_time_def flight_def)
  have p: "feasible_path (build_graph ?fs) ''A'' ''C'' 420
      [flight ''A'' ''C'' ''F3'' 500 700 10 20 30]"
    by code_simp
  from earliest_is_earliest[OF v run a p] v run a p show ?thesis by blast
qed

subsection \<open>What the loaders check\<close>

lemma parse_time_range:
  assumes "parse_time s = Inr t"
  shows "0 \<le> t \<and> t < 1440"
  using assms
  by (auto simp: parse_time_def split: if_splits list.splits option.splits)

lemma parse_flight_line_txt_valid:
  assumes "parse_flight_line_txt line = Inr (Some f)"
  shows "valid_times f"
proof -
  from assms obtain dep arr where
    "parse_time dep = Inr (depart f)" "parse_time arr = Inr (arrive f)" "depart f < arrive f"
    unfolding parse_flight_line_txt_def Let_def
    by (auto split: if_splits list.splits sum.splits option.splits)
  with parse_time_range[of dep "depart f"] parse_time_range[of arr "arrive f"]
  show ?thesis by (simp add: valid_times_def)
qed

lemma load_txt_lines_valid:
  assumes "load_txt_lines lines fls = Inr r" "\<forall>f \<in> set fls. valid_times f"
  shows "\<forall>f \<in> set r. valid_times f"
  using assms
proof (induction lines arbitrary: fls)
  case Nil
  then show ?case by simp
next
  case (Cons line rest)
  show ?case
  proof (cases "parse_flight_line_txt line")
    case (Inl err)
    with Cons.prems show ?thesis by simp
  next
    case (Inr fl)
    show ?thesis
    proof (cases fl)
      case None
      with Inr Cons.prems Cons.IH[of fls] show ?thesis by simp
    next
      case (Some x)
      with Inr have "valid_times x" by (simp add: parse_flight_line_txt_valid)
      with Some Inr Cons.prems Cons.IH[of "fls @ [x]"] show ?thesis by simp
    qed
  qed
qed

lemma csv_row_flight_valid:
  assumes "csv_row_flight row = Inr f"
  shows "valid_times f"
proof -
  from assms obtain dep arr where
    "parse_time dep = Inr (depart f)" "parse_time arr = Inr (arrive f)" "depart f < arrive f"
    unfolding csv_row_flight_def parse_time_cell_def
    by (auto split: if_splits sum.splits option.splits)
  with parse_time_range[of dep "depart f"] parse_time_range[of arr "arrive f"]
  show ?thesis by (simp add: valid_times_def)
qed

lemma load_csv_rows_valid:
  assumes "load_csv_rows rows fls = Inr r" "\<forall>f \<in> set fls. valid_times f"
  shows "\<forall>f \<in> set r. valid_times f"
  using assms
proof (induction rows arbitrary: fls)
  case Nil
  then show ?case by simp
next
  case (Cons row rest)
  show ?case
  proof (cases "csv_row_flight row")
    case (Inl err)
    with Cons.prems show ?thesis by simp
  next
    case (Inr x)
    then have "valid_times x" by (rule csv_row_flight_valid)
    with Inr Cons.prems Cons.IH[of "fls @ [x]"] show ?thesis by simp
  qed
qed

text \<open>
  C7 (as amended). Every flight produced by \<open>load_flights\<close>, through either loader,
  has its departure and arrival in \<open>[0, 1440)\<close> and arrives strictly after it departs;
  its three prices are integers, of either sign.
\<close>

theorem load_flights_valid:
  assumes "load_flights path file = Inr fls" "f \<in> set fls"
  shows "0 \<le> depart f \<and> depart f < 1440 \<and> 0 \<le> arrive f \<and> arrive f < 1440
    \<and> depart f < arrive f"
proof -
  have "\<forall>f \<in> set fls. valid_times f"
  proof (cases "map to_lower (path_suffix path) = ''.csv''")
    case True
    with assms(1) have "load_csv_rows (csv_rows file) [] = Inr fls"
      by (simp add: load_flights_def load_flights_csv_def split: if_splits)
    from load_csv_rows_valid[OF this] show ?thesis by simp
  next
    case False
    with assms(1) obtain r where r: "load_txt_lines (file_lines file) [] = Inr r"
      and fls: "fls = map loaded r"
      by (auto simp: load_flights_def load_flights_txt_def split: sum.splits)
    from load_txt_lines_valid[OF r] have "\<forall>f \<in> set r. valid_times f" by simp
    with fls show ?thesis by (auto simp: valid_times_def loaded_def)
  qed
  with assms(2) show ?thesis by (auto simp: valid_times_def)
qed

theorem load_flights_valid_witness:
  "load_flights ''flights.txt''
     \<lparr>file_lines = [''# morning'', ''A B F1 08:00 09:00 100 200 300''],
      csv_fieldnames = None, csv_rows = []\<rparr>
     = Inr [loaded (flight ''A'' ''B'' ''F1'' 480 540 100 200 300)]
   \<and> loaded (flight ''A'' ''B'' ''F1'' 480 540 100 200 300)
       \<in> set [loaded (flight ''A'' ''B'' ''F1'' 480 540 100 200 300)]
   \<and> 0 \<le> depart (loaded (flight ''A'' ''B'' ''F1'' 480 540 100 200 300))
   \<and> depart (loaded (flight ''A'' ''B'' ''F1'' 480 540 100 200 300)) < 1440
   \<and> 0 \<le> arrive (loaded (flight ''A'' ''B'' ''F1'' 480 540 100 200 300))
   \<and> arrive (loaded (flight ''A'' ''B'' ''F1'' 480 540 100 200 300)) < 1440
   \<and> depart (loaded (flight ''A'' ''B'' ''F1'' 480 540 100 200 300))
       < arrive (loaded (flight ''A'' ''B'' ''F1'' 480 540 100 200 300))"
proof -
  have run: "load_flights ''flights.txt''
     \<lparr>file_lines = [''# morning'', ''A B F1 08:00 09:00 100 200 300''],
      csv_fieldnames = None, csv_rows = []\<rparr>
     = Inr [loaded (flight ''A'' ''B'' ''F1'' 480 540 100 200 300)]"
    by code_simp
  have mem: "loaded (flight ''A'' ''B'' ''F1'' 480 540 100 200 300)
       \<in> set [loaded (flight ''A'' ''B'' ''F1'' 480 540 100 200 300)]" by simp
  from load_flights_valid[OF run mem] run mem show ?thesis by blast
qed

text \<open>
  C7 as stated fails: \<^verbatim>\<open>int("-5")\<close> is \<open>-5\<close>, and no loader looks at the sign of a
  price.
\<close>

theorem negative_price_loaded_counterexample:
  "load_flights ''flights.txt''
     \<lparr>file_lines = [''A B F1 08:00 09:00 -5 0 0''], csv_fieldnames = None, csv_rows = []\<rparr>
     = Inr [loaded (flight ''A'' ''B'' ''F1'' 480 540 (-5) 0 0)]
   \<and> economy (loaded (flight ''A'' ''B'' ''F1'' 480 540 (-5) 0 0)) < 0"
  by code_simp


subsection \<open>The itineraries of the earliest-arrival search are feasible\<close>

lemma relax_earliest_feasible:
  assumes inv: "earliest_feasible graph start ed st"
    and a: "best_time st a = Some ba" "ba \<le> t"
    and fl: "fl \<in> set (graph_get graph a)" "origin fl = a"
  shows "earliest_feasible graph start ed (relax_earliest start ed t a fl st)
    \<and> (\<exists>ba'. best_time (relax_earliest start ed t a fl st) a = Some ba' \<and> ba' \<le> t)"
proof (cases rule: relax_earliest_cases[of start ed t a fl st])
  case same
  with inv a show ?thesis by simp
next
  case update
  let ?n = "arrive fl" and ?D = "dest fl"
  let ?best' = "(best_time st)(?D \<mapsto> ?n)"
  from inv have q: "\<forall>(t', Y) \<in> set (pq st). \<exists>b. best_time st Y = Some b \<and> b \<le> t'"
    and pv: "\<forall>Z f. prev st Z = Some f \<longrightarrow> leg_ok graph start ed (best_time st) Z f"
    by (simp_all add: earliest_feasible_def)
  have q': "\<forall>(t', Y) \<in> set ((?n, ?D) # pq st). \<exists>b. ?best' Y = Some b \<and> b \<le> t'"
  proof (clarify)
    fix t' Y
    assume "(t', Y) \<in> set ((?n, ?D) # pq st)"
    then consider "t' = ?n" "Y = ?D" | "(t', Y) \<in> set (pq st)" by auto
    then show "\<exists>b. ?best' Y = Some b \<and> b \<le> t'"
    proof cases
      case 1
      then show ?thesis by simp
    next
      case 2
      with q obtain b where "best_time st Y = Some b" "b \<le> t'" by blast
      with update(2) show ?thesis by (cases "Y = ?D") auto
    qed
  qed
  have a': "\<exists>ba'. ?best' a = Some ba' \<and> ba' \<le> t"
  proof (cases "a = ?D")
    case True
    with update(2) a show ?thesis by auto
  next
    case False
    with a show ?thesis by simp
  qed
  have new: "leg_ok graph start ed ?best' ?D fl"
  proof -
    from a' obtain ba' where "?best' a = Some ba'" "ba' \<le> t" by blast
    with fl update(3) show ?thesis
      unfolding leg_ok_def by (cases "a = start") auto
  qed
  have old: "leg_ok graph start ed ?best' Z f"
    if "Z \<noteq> ?D" "leg_ok graph start ed (best_time st) Z f" for Z f
  proof -
    have "\<exists>b. ?best' (origin f) = Some b \<and> b + MIN_LAYOVER_MINUTES \<le> depart f"
      if "best_time st (origin f) = Some b" "b + MIN_LAYOVER_MINUTES \<le> depart f" for b
      using that update(2) by (cases "origin f = ?D") auto
    with that show ?thesis unfolding leg_ok_def by auto
  qed
  have pv': "\<forall>Z f. ((prev st)(?D \<mapsto> fl)) Z = Some f \<longrightarrow> leg_ok graph start ed ?best' Z f"
  proof (intro allI impI)
    fix Z f
    assume Z: "((prev st)(?D \<mapsto> fl)) Z = Some f"
    show "leg_ok graph start ed ?best' Z f"
    proof (cases "Z = ?D")
      case True
      with Z new show ?thesis by simp
    next
      case False
      with Z pv have "leg_ok graph start ed (best_time st) Z f" by simp
      from old[OF False this] show ?thesis .
    qed
  qed
  from q' pv' a' show ?thesis
    unfolding update(1) earliest_feasible_def by simp
qed

lemma earliest_loop_feasible:
  assumes run: "earliest_loop graph start dst ed (earliest_init start ed) = Some st"
    and g: "keyed_by_origin graph"
  shows "\<forall>Z f. prev st Z = Some f \<longrightarrow> leg_ok graph start ed (best_time st) Z f"
proof (rule earliest_loop_rule[OF run, where I = "earliest_feasible graph start ed"])
  show "earliest_feasible graph start ed (earliest_init start ed)"
    by (simp add: earliest_feasible_def earliest_init_def)
next
  fix st :: estate and t a q
  assume inv: "earliest_feasible graph start ed st" and ne: "pq st \<noteq> []"
    and pop: "heappop (pq st) = ((t, a), q)"
  from heappop_props(1,3)[OF ne pop]
  have m: "(t, a) \<in> set (pq st)" and sub: "set q \<subseteq> set (pq st)" .
  from inv have qs: "\<forall>(t, Y) \<in> set (pq st). \<exists>b. best_time st Y = Some b \<and> b \<le> t"
    by (simp add: earliest_feasible_def)
  from qs sub have "\<forall>(t, Y) \<in> set q. \<exists>b. best_time st Y = Some b \<and> b \<le> t"
    by blast
  with inv have inv': "earliest_feasible graph start ed (st\<lparr>pq := q\<rparr>)"
    by (simp add: earliest_feasible_def)
  from qs m have "\<exists>ba. best_time st a = Some ba \<and> ba \<le> t" by blast
  with inv' have "earliest_feasible graph start ed (st\<lparr>pq := q\<rparr>)
      \<and> (\<exists>ba. best_time (st\<lparr>pq := q\<rparr>) a = Some ba \<and> ba \<le> t)" by simp
  then have "earliest_feasible graph start ed
        (fold (relax_earliest start ed t a) (graph_get graph a) (st\<lparr>pq := q\<rparr>))
      \<and> (\<exists>ba. best_time (fold (relax_earliest start ed t a) (graph_get graph a)
        (st\<lparr>pq := q\<rparr>)) a = Some ba \<and> ba \<le> t)"
  proof (rule fold_invariant)
    fix fl and s :: estate
    assume fl: "fl \<in> set (graph_get graph a)"
      and "earliest_feasible graph start ed s \<and> (\<exists>ba. best_time s a = Some ba \<and> ba \<le> t)"
    then obtain ba where s: "earliest_feasible graph start ed s" "best_time s a = Some ba"
      "ba \<le> t" by blast
    show "earliest_feasible graph start ed (relax_earliest start ed t a fl s)
      \<and> (\<exists>ba. best_time (relax_earliest start ed t a fl s) a = Some ba \<and> ba \<le> t)"
      by (rule relax_earliest_feasible[OF s fl graph_get_origin[OF g fl]])
  qed
  then show "earliest_feasible graph start ed
      (fold (relax_earliest start ed t a) (graph_get graph a) (st\<lparr>pq := q\<rparr>))" ..
qed (simp_all add: earliest_feasible_def)

lemma back_path_connects:
  assumes "back_path prv start cur p"
    and "\<forall>Z f. prv Z = Some f \<longrightarrow> leg_ok graph start ed best Z f"
  shows "connects graph start ed (rev p) \<and> (p \<noteq> [] \<longrightarrow> dest (hd p) = cur)"
  using assms
proof (induction rule: back_path.induct)
  case (stop prv start)
  show ?case by simp
next
  case (step cur start prv fl rest)
  from step.prems step.hyps(2) have fl: "leg_ok graph start ed best cur fl" by blast
  from step.IH[OF step.prems] have c: "connects graph start ed (rev rest)"
    and h: "rest \<noteq> [] \<longrightarrow> dest (hd rest) = origin fl" by simp_all
  have "fl \<in> set (graph_get graph (if rev rest = [] then start else dest (last (rev rest))))
      \<and> origin fl = (if rev rest = [] then start else dest (last (rev rest)))
      \<and> (if rev rest = [] then ed else arrive (last (rev rest)) + MIN_LAYOVER_MINUTES)
          \<le> depart fl"
  proof (cases rest)
    case Nil
    with step.hyps(3) have "origin fl = start" by (auto elim: back_path_NilE)
    with Nil fl show ?thesis by (auto simp: leg_ok_def)
  next
    case (Cons g' rest')
    with step.hyps(3) have o: "origin fl \<noteq> start" "prv (origin fl) = Some g'"
      by (auto elim: back_path_ConsE)
    with step.prems have "leg_ok graph start ed best (origin fl) g'" by blast
    then have "best (origin fl) = Some (arrive g')" by (simp add: leg_ok_def)
    with fl o(1) h Cons show ?thesis by (auto simp: leg_ok_def last_rev)
  qed
  with c fl show ?case by (simp add: connects_snoc leg_ok_def)
qed

text \<open>
  The half of C2 that holds: every itinerary with a flight that
  \<open>find_earliest_itinerary\<close> returns is a feasible path of the graph from start to
  destination; its first flight leaves no earlier than the earliest departure and
  each later flight at least 60 minutes after the previous arrival.
\<close>

theorem earliest_itinerary_feasible:
  assumes "keyed_by_origin graph"
    and "find_earliest_itinerary graph start dst ed = Some (Some it)"
    and "flights it \<noteq> []"
  shows "feasible_path graph start dst ed (flights it)"
proof -
  from assms(2) obtain st where
    st: "earliest_loop graph start dst ed (earliest_init start ed) = Some st"
    and bp: "back_path (prev st) start dst (rev (flights it))"
    by (rule find_earliest_SomeD)
  from back_path_connects[OF bp earliest_loop_feasible[OF st assms(1)]] assms(3)
  show ?thesis by (simp add: feasible_path_def hd_rev)
qed

theorem earliest_itinerary_feasible_witness:
  "keyed_by_origin (build_graph [flight ''A'' ''B'' ''F1'' 60 100 50 50 50,
                                 flight ''A'' ''C'' ''F2'' 30 50 10 10 10,
                                 flight ''C'' ''B'' ''F3'' 110 500 5 5 5,
                                 flight ''B'' ''D'' ''F4'' 200 300 7 7 7])
   \<and> find_earliest_itinerary
       (build_graph [flight ''A'' ''B'' ''F1'' 60 100 50 50 50,
                     flight ''A'' ''C'' ''F2'' 30 50 10 10 10,
                     flight ''C'' ''B'' ''F3'' 110 500 5 5 5,
                     flight ''B'' ''D'' ''F4'' 200 300 7 7 7]) ''A'' ''D'' 0
       = Some (Some \<lparr>flights = [flight ''A'' ''B'' ''F1'' 60 100 50 50 50,
                               flight ''B'' ''D'' ''F4'' 200 300 7 7 7]\<rparr>)
   \<and> feasible_path
       (build_graph [flight ''A'' ''B'' ''F1'' 60 100 50 50 50,
                     flight ''A'' ''C'' ''F2'' 30 50 10 10 10,
                     flight ''C'' ''B'' ''F3'' 110 500 5 5 5,
                     flight ''B'' ''D'' ''F4'' 200 300 7 7 7]) ''A'' ''D'' 0
       [flight ''A'' ''B'' ''F1'' 60 100 50 50 50, flight ''B'' ''D'' ''F4'' 200 300 7 7 7]"
proof -
  let ?g = "build_graph [flight ''A'' ''B'' ''F1'' 60 100 50 50 50,
                         flight ''A'' ''C'' ''F2'' 30 50 10 10 10,
                         flight ''C'' ''B'' ''F3'' 110 500 5 5 5,
                         flight ''B'' ''D'' ''F4'' 200 300 7 7 7]"
  let ?it = "\<lparr>flights = [flight ''A'' ''B'' ''F1'' 60 100 50 50 50,
                         flight ''B'' ''D'' ''F4'' 200 300 7 7 7]\<rparr>"
  have k: "keyed_by_origin ?g" by (rule build_graph_keyed)
  have run: "find_earliest_itinerary ?g ''A'' ''D'' 0 = Some (Some ?it)" by code_simp
  have ne: "flights ?it \<noteq> []" by simp
  from earliest_itinerary_feasible[OF k run ne] k run show ?thesis by simp
qed

end
